theory Spec2Isabelle
  imports Complex_Main "HOL-Library.Word"
begin

section \<open>Firmware (firmware.c): the memory game\<close>

text \<open>
  The firmware runs on an Arduino Nano: \<open>unsigned long\<close> is 32 bits wide, so the
  readings of \<open>millis()\<close> are \<open>32 word\<close> and their differences wrap around.
  The game counters \<open>turn\<close> and \<open>currentStep\<close> are C \<open>int\<close>s; they are modelled as
  \<open>int\<close>; the invariant \<open>game_inv\<close> below keeps them within \<open>0..16\<close>, far from any
  overflow. An array read out of its bounds is undefined behaviour in C: the model returns
  \<open>None\<close> there, so every function that reads \<open>melody\<close> returns an \<open>option\<close>.
\<close>

type_synonym millis = "32 word"

datatype pin = Dpin nat | Apin nat

datatype out_event =
    DigitalWrite pin bool
  | Tone pin int int
  | NoTone pin
  | Delay nat
  | Print string
  | Println string
  | PrintlnInt int

definition NOTE_C :: int where "NOTE_C = 262"
definition NOTE_D :: int where "NOTE_D = 294"
definition NOTE_E :: int where "NOTE_E = 330"
definition NOTE_F :: int where "NOTE_F = 349"
definition NOTE_G :: int where "NOTE_G = 392"
definition NOTE_A :: int where "NOTE_A = 440"

definition SPEAKER_PIN :: pin where "SPEAKER_PIN = Apin 5"

definition ledPins :: "pin list" where
  "ledPins = [Dpin 11, Dpin 9, Dpin 5, Apin 0, Apin 2, Apin 4]"

definition notes_tbl :: "int list" where
  "notes_tbl = [NOTE_C, NOTE_D, NOTE_E, NOTE_F, NOTE_G, NOTE_A]"

definition STEP_DELAY :: millis where "STEP_DELAY = 800"

definition melody :: "int list" where
  "melody = [3, 3, 4, 5, 5, 4, 3, 2, 1, 1, 2, 3, 3, 2, 2]"

definition melodyLength :: int where
  "melodyLength = int (length melody)"

text \<open>The read \<open>melody[i]\<close>: \<open>None\<close> outside the array.\<close>

definition melody_at :: "int \<Rightarrow> int option" where
  "melody_at i = (if 0 \<le> i \<and> i < melodyLength then Some (melody ! nat i) else None)"

record game =
  turn :: int
  currentStep :: int
  showingSequence :: bool
  waitingForInput :: bool
  lastActionTime :: millis
  out :: "out_event list"

definition emit :: "out_event list \<Rightarrow> game \<Rightarrow> game" where
  "emit es g = g\<lparr>out := out g @ es\<rparr>"

definition all_leds :: "bool \<Rightarrow> out_event list" where
  "all_leds v = map (\<lambda>j. DigitalWrite (ledPins ! j) v) [0..<6]"

definition playNote :: "int \<Rightarrow> game \<Rightarrow> game" where
  "playNote noteIndex g =
     (let arrayIndex = noteIndex - 1 in
      if arrayIndex \<ge> 0 \<and> arrayIndex < 6 then
        emit [DigitalWrite (ledPins ! nat arrayIndex) True,
              Tone SPEAKER_PIN (notes_tbl ! nat arrayIndex) 300,
              Delay 300,
              DigitalWrite (ledPins ! nat arrayIndex) False,
              NoTone SPEAKER_PIN] g
      else g)"

text \<open>One round of the outer loop of \<open>failSequence\<close>, which runs three times.\<close>

definition fail_round :: "out_event list" where
  "fail_round =
     all_leds True @ [Tone SPEAKER_PIN NOTE_C 300, Delay 400] @
     all_leds False @ [Tone SPEAKER_PIN NOTE_G 300, Delay 400]"

definition fail_events :: "out_event list" where
  "fail_events =
     [Println ''FAIL! Restarting...''] @ concat (replicate 3 fail_round) @
     [NoTone SPEAKER_PIN, Delay 1000]"

definition failSequence :: "game \<Rightarrow> game" where
  "failSequence g =
     (emit fail_events g)
       \<lparr>turn := 0, currentStep := 0, showingSequence := False, waitingForInput := False\<rparr>"

definition win_events :: "out_event list" where
  "win_events =
     [Println ''YOU WIN!''] @ all_leds True @
     [Tone SPEAKER_PIN NOTE_E 400, Delay 500,
      Tone SPEAKER_PIN NOTE_G 400, Delay 500,
      Tone SPEAKER_PIN NOTE_E 400, Delay 500,
      Tone SPEAKER_PIN NOTE_C 600, Delay 700,
      NoTone SPEAKER_PIN] @ all_leds False @ [Delay 2000]"

definition winSequence :: "game \<Rightarrow> game" where
  "winSequence g = emit win_events g"

text \<open>
  \<open>runMemoryGame\<close> reads \<open>millis()\<close> twice: \<open>t1\<close> in the test of the step delay and
  \<open>t2\<close> after the note has been played.
\<close>

definition runMemoryGame :: "millis \<Rightarrow> millis \<Rightarrow> game \<Rightarrow> game option" where
  "runMemoryGame t1 t2 g =
     (if turn g \<ge> melodyLength then
        Some ((winSequence g)
          \<lparr>turn := 0, currentStep := 0, showingSequence := False, waitingForInput := False\<rparr>)
      else
        let g1 = (if \<not> showingSequence g \<and> \<not> waitingForInput g
                  then (emit [Print ''Turn '', PrintlnInt (turn g + 1)] g)
                         \<lparr>showingSequence := True, currentStep := 0\<rparr>
                  else g)
        in if showingSequence g1 \<and> t1 - lastActionTime g1 > STEP_DELAY then
             (if currentStep g1 \<le> turn g1 then
                (case melody_at (currentStep g1) of
                   None \<Rightarrow> None
                 | Some n \<Rightarrow>
                     Some ((playNote n g1)
                       \<lparr>currentStep := currentStep g1 + 1, lastActionTime := t2\<rparr>))
              else
                Some ((emit [Println ''Your turn!''] g1)
                  \<lparr>showingSequence := False, waitingForInput := True, currentStep := 0\<rparr>))
           else Some g1)"

definition checkGameInput :: "int \<Rightarrow> game \<Rightarrow> game option" where
  "checkGameInput buttonPressed g =
     (if \<not> waitingForInput g then Some g
      else
        (case melody_at (currentStep g) of
           None \<Rightarrow> None
         | Some expectedNote \<Rightarrow>
             if buttonPressed = expectedNote then
               (let g1 = (emit [Println ''Correct!''] g)\<lparr>currentStep := currentStep g + 1\<rparr>
                in if currentStep g1 > turn g1 then
                     Some ((emit [Println ''Good! Next level...'', Delay 1000] g1)
                       \<lparr>turn := turn g1 + 1, waitingForInput := False\<rparr>)
                   else Some g1)
             else
               Some (failSequence (emit [Println ''Wrong! Try again.''] g))))"

text \<open>
  The body of the loop of \<open>handleButtons\<close> for button \<open>i\<close>; \<open>pressed\<close> is the reading
  \<open>digitalRead(buttonPins[i]) == LOW\<close>.
\<close>

definition handleButton :: "nat \<Rightarrow> bool \<Rightarrow> game \<Rightarrow> game option" where
  "handleButton i pressed g =
     (let g1 = emit [DigitalWrite (ledPins ! i) pressed] g in
      if pressed then
        (let g2 = emit [Tone SPEAKER_PIN (notes_tbl ! i) 200] g1 in
         if waitingForInput g2 then checkGameInput (int i + 1) g2 else Some g2)
      else Some g1)"

fun scanButtons :: "nat list \<Rightarrow> (nat \<Rightarrow> bool) \<Rightarrow> game \<Rightarrow> game option" where
  "scanButtons [] pr g = Some g"
| "scanButtons (i # js) pr g =
     (case handleButton i (pr i) g of
        None \<Rightarrow> None
      | Some g' \<Rightarrow> scanButtons js pr g')"

definition handleButtons :: "(nat \<Rightarrow> bool) \<Rightarrow> game \<Rightarrow> game option" where
  "handleButtons pr g = scanButtons [0..<6] pr g"

text \<open>
  \<open>playStartupMelody\<close> reads \<open>melody[i]\<close> for \<open>i < 15\<close> and plays every note whose
  index is one of the six buttons.
\<close>

fun startup_notes :: "int list \<Rightarrow> out_event list" where
  "startup_notes [] = []"
| "startup_notes (m # ms) =
     (let noteIndex = m - 1 in
      (if noteIndex \<ge> 0 \<and> noteIndex < 6 then
         [DigitalWrite (ledPins ! nat noteIndex) True,
          Tone SPEAKER_PIN (notes_tbl ! nat noteIndex) 300,
          Delay 350,
          DigitalWrite (ledPins ! nat noteIndex) False,
          Delay 50]
       else []) @ startup_notes ms)"

definition playStartupMelody :: "out_event list" where
  "playStartupMelody = startup_notes (take 15 melody) @ [Delay 500]"

text \<open>The game's variables after \<open>setup()\<close>.\<close>

definition game0 :: game where
  "game0 = \<lparr>turn = 0, currentStep = 0, showingSequence = False, waitingForInput = False,
            lastActionTime = 0, out = playStartupMelody\<rparr>"

text \<open>
  One iteration of \<open>loop()\<close>, as far as the game is concerned: the six button readings,
  then \<open>runMemoryGame\<close> with its two clock readings, then \<open>delay(50)\<close>.
\<close>

record tick =
  buttons :: "nat \<Rightarrow> bool"
  clock1 :: millis
  clock2 :: millis

definition game_loop :: "tick \<Rightarrow> game \<Rightarrow> game option" where
  "game_loop tk g =
     (case handleButtons (buttons tk) g of
        None \<Rightarrow> None
      | Some g1 \<Rightarrow>
          (case runMemoryGame (clock1 tk) (clock2 tk) g1 of
             None \<Rightarrow> None
           | Some g2 \<Rightarrow> Some (emit [Delay 50] g2)))"

fun run_game :: "tick list \<Rightarrow> game \<Rightarrow> game option" where
  "run_game [] g = Some g"
| "run_game (tk # tks) g =
     (case game_loop tk g of
        None \<Rightarrow> None
      | Some g' \<Rightarrow> run_game tks g')"

text \<open>
  The player is correct during a scan of the buttons when every press that the game
  accepts (it is awaiting input when the button is read) is the expected note.
\<close>

fun correctScan :: "nat list \<Rightarrow> (nat \<Rightarrow> bool) \<Rightarrow> game \<Rightarrow> bool" where
  "correctScan [] pr g = True"
| "correctScan (i # js) pr g =
     ((if pr i \<and> waitingForInput g then melody_at (currentStep g) = Some (int i + 1) else True)
      \<and> (case handleButton i (pr i) g of
           None \<Rightarrow> True
         | Some g' \<Rightarrow> correctScan js pr g'))"

fun correctRun :: "tick list \<Rightarrow> game \<Rightarrow> bool" where
  "correctRun [] g = True"
| "correctRun (tk # tks) g =
     (correctScan [0..<6] (buttons tk) g
      \<and> (case game_loop tk g of
           None \<Rightarrow> True
         | Some g' \<Rightarrow> correctRun tks g'))"

text \<open>
  The level after the button scan of every loop iteration of a run, and what it means for
  these levels to climb from level \<open>t\<close>: each is the level before or one more, at
  most 15, and after a level of 15 the count starts again from 0.
\<close>

fun levels :: "tick list \<Rightarrow> game \<Rightarrow> int list" where
  "levels [] g = []"
| "levels (tk # tks) g =
     (case handleButtons (buttons tk) g of
        None \<Rightarrow> []
      | Some g1 \<Rightarrow>
          turn g1 # (case game_loop tk g of None \<Rightarrow> [] | Some g2 \<Rightarrow> levels tks g2))"

fun climbs :: "int \<Rightarrow> int list \<Rightarrow> bool" where
  "climbs t [] = True"
| "climbs t (x # xs) =
     ((x = t \<or> x = t + 1) \<and> x \<le> 15 \<and> climbs (if x \<ge> 15 then 0 else x) xs)"

text \<open>The invariant of the game's variables.\<close>

definition game_inv :: "game \<Rightarrow> bool" where
  "game_inv g \<longleftrightarrow>
     0 \<le> turn g \<and> turn g \<le> 15 \<and> 0 \<le> currentStep g \<and> currentStep g \<le> turn g + 1
     \<and> \<not> (showingSequence g \<and> waitingForInput g)
     \<and> (waitingForInput g \<longrightarrow> currentStep g \<le> turn g \<and> turn g < 15)
     \<and> (showingSequence g \<longrightarrow> turn g < 15)"

text \<open>
  The buttons pressed one at a time: \<open>enter bs\<close> passes the presses \<open>bs\<close> to
  \<open>checkGameInput\<close> in order. \<open>prefix_at g\<close> is what is left to enter of the prefix
  of the current level, \<open>melody[currentStep..turn]\<close>.
\<close>

fun enter :: "int list \<Rightarrow> game \<Rightarrow> game option" where
  "enter [] g = Some g"
| "enter (b # bs) g =
     (case checkGameInput b g of
        None \<Rightarrow> None
      | Some g' \<Rightarrow> enter bs g')"

definition prefix_at :: "game \<Rightarrow> int list" where
  "prefix_at g = drop (nat (currentStep g)) (take (nat (turn g) + 1) melody)"

text \<open>
  How the level may move between two states: it stays (and the game does not start to
  await input by itself), or a level that was awaiting input is completed and the level
  goes up by one.
\<close>

definition level_step :: "game \<Rightarrow> game \<Rightarrow> bool" where
  "level_step g g' \<longleftrightarrow>
     (turn g' = turn g \<and> (\<not> waitingForInput g \<longrightarrow> \<not> waitingForInput g'))
     \<or> (waitingForInput g \<and> \<not> waitingForInput g' \<and> turn g' = turn g + 1)"

text \<open>Two loop iterations used as concrete inputs: no button, or exactly button \<open>k\<close>.\<close>

definition tick_idle :: "millis \<Rightarrow> tick" where
  "tick_idle t = \<lparr>buttons = (\<lambda>_. False), clock1 = t, clock2 = t\<rparr>"

definition tick_press :: "nat \<Rightarrow> millis \<Rightarrow> tick" where
  "tick_press k t = \<lparr>buttons = (\<lambda>i. i = k), clock1 = t, clock2 = t\<rparr>"

text \<open>
  A complete game, as a schedule of loop iterations on the clock that the firmware itself
  produces: an iteration lasts the 50 ms of \<open>loop()\<close> plus the delays of the calls it
  makes (300 ms for a note, 1000 ms for a completed level); sensing, the button scan and
  printing are taken to need no time. The variables of the game without its output are
  \<open>ctl\<close>. After a note has been played at time \<open>la\<close>, sixteen iterations pass in which the
  step delay of 800 ms has not yet expired, and the one at \<open>la + 850\<close> plays the next note
  or hands over to the player. The player then presses the right button in one iteration
  after the other. \<open>full_game\<close> starts 6500 ms after power-up, when the startup melody is
  over, and plays the fifteen levels.
\<close>

definition ctl :: "game \<Rightarrow> int \<times> int \<times> bool \<times> bool \<times> millis" where
  "ctl g = (turn g, currentStep g, showingSequence g, waitingForInput g, lastActionTime g)"

definition quiet_tick :: "millis \<Rightarrow> tick" where
  "quiet_tick t = \<lparr>buttons = (\<lambda>_. False), clock1 = t, clock2 = t + 300\<rparr>"

definition button_tick :: "nat \<Rightarrow> millis \<Rightarrow> tick" where
  "button_tick k t = \<lparr>buttons = (\<lambda>i. i = k), clock1 = t, clock2 = t + 300\<rparr>"

definition wait_ticks :: "millis \<Rightarrow> tick list" where
  "wait_ticks la = map (\<lambda>j. quiet_tick (la + word_of_nat (50 * j))) [1..<17]"

definition gap_ticks :: "millis \<Rightarrow> tick list" where
  "gap_ticks la = wait_ticks la @ [quiet_tick (la + 850)]"

fun show_ticks :: "millis \<Rightarrow> nat \<Rightarrow> tick list" where
  "show_ticks la 0 = gap_ticks la"
| "show_ticks la (Suc n) = gap_ticks la @ show_ticks (la + 1150) n"

text \<open>
  The presses of the notes \<open>bs\<close>, the first in the iteration that starts at \<open>p\<close>. The
  last press completes the level, so \<open>runMemoryGame\<close> reads the clock 1000 ms later.
\<close>

fun enter_ticks :: "millis \<Rightarrow> int list \<Rightarrow> tick list" where
  "enter_ticks p [] = []"
| "enter_ticks p [b] = [button_tick (nat (b - 1)) (p + 1000)]"
| "enter_ticks p (b # c # bs) = button_tick (nat (b - 1)) p # enter_ticks (p + 50) (c # bs)"

definition level_ticks :: "nat \<Rightarrow> millis \<Rightarrow> tick list" where
  "level_ticks t la =
     show_ticks la t @ enter_ticks (la + 1150 * word_of_nat t + 900) (take (t + 1) melody)"

fun play_ticks :: "nat \<Rightarrow> nat \<Rightarrow> millis \<Rightarrow> tick list" where
  "play_ticks 0 t la = []"
| "play_ticks (Suc k) t la =
     level_ticks t la @ play_ticks k (Suc t) (la + 1200 * word_of_nat t + 2200)"

definition full_game :: "tick list" where
  "full_game = quiet_tick 6500 # play_ticks 15 0 6800"

text \<open>
  \<open>played tks g g' lvs\<close>: the run \<open>tks\<close> from \<open>g\<close> ends in \<open>g'\<close>, every accepted press
  in it is correct, and the levels after the button scans are \<open>lvs\<close>.
\<close>

definition played :: "tick list \<Rightarrow> game \<Rightarrow> game \<Rightarrow> int list \<Rightarrow> bool" where
  "played tks g g' lvs \<longleftrightarrow>
     run_game tks g = Some g' \<and> correctRun tks g \<and> levels tks g = lvs"

section \<open>Firmware (firmware.c): presence gates and light strips\<close>

text \<open>
  A \<open>float\<close> distance is either NaN (\<open>None\<close>: the echo timed out) or a finite value
  (\<open>Some d\<close>); the comparison with \<open>THRESH_CM\<close> is exact on finite values. The strips are
  driven through the Adafruit NeoPixel library: a strip is its pixel buffer, written by
  \<open>setPixelColor\<close>, and the frames that \<open>show()\<close> has sent to the LEDs.
\<close>

type_synonym cfloat = "real option"
type_synonym color = "32 word"

definition THRESH_CM :: real where "THRESH_CM = 3"
definition LED_COUNT_A :: nat where "LED_COUNT_A = 5"
definition LED_COUNT_B :: nat where "LED_COUNT_B = 5"
definition BREATH_INTERVAL :: millis where "BREATH_INTERVAL = 30"

record strip =
  pixels :: "color list"
  sent :: "color list list"

definition setPixelColor :: "nat \<Rightarrow> color \<Rightarrow> strip \<Rightarrow> strip" where
  "setPixelColor i c st =
     (if i < length (pixels st) then st\<lparr>pixels := (pixels st)[i := c]\<rparr> else st)"

definition show_strip :: "strip \<Rightarrow> strip" where
  "show_strip st = st\<lparr>sent := sent st @ [pixels st]\<rparr>"

definition clearStrip :: "strip \<Rightarrow> nat \<Rightarrow> strip" where
  "clearStrip st n = show_strip (fold (\<lambda>i. setPixelColor i 0) [0..<n] st)"

text \<open>C division of \<open>long\<close>s truncates towards zero.\<close>

definition tdiv :: "int \<Rightarrow> int \<Rightarrow> int" where
  "tdiv a b = sgn a * sgn b * (\<bar>a\<bar> div \<bar>b\<bar>)"

text \<open>
  \<open>map\<close> of the Arduino core, on \<open>long\<close> arguments. The products that this
  program forms from bytes and from an envelope near its range are far from the 32 bits
  of a \<open>long\<close>, so no wrap-around is written out.
\<close>

definition map_long :: "int \<Rightarrow> int \<Rightarrow> int \<Rightarrow> int \<Rightarrow> int \<Rightarrow> int" where
  "map_long x in_min in_max out_min out_max =
     tdiv ((x - in_min) * (out_max - out_min)) (in_max - in_min) + out_min"

text \<open>\<open>Adafruit_NeoPixel::Color\<close> packs three bytes.\<close>

definition Color :: "8 word \<Rightarrow> 8 word \<Rightarrow> 8 word \<Rightarrow> color" where
  "Color r g b = word_of_nat (unat r * 65536 + unat g * 256 + unat b)"

definition byte_of :: "int \<Rightarrow> 8 word" where
  "byte_of x = word_of_int x"

definition colorWheelBreathing :: "8 word \<Rightarrow> 8 word \<Rightarrow> 8 word \<Rightarrow> color" where
  "colorWheelBreathing hue0 sat0 val0 =
     (let hue1 = byte_of (255 - uint hue0); v = uint val0 in
      if hue1 < 85 then
        Color (byte_of (map_long v 0 255 0 (255 - uint hue1 * 3)))
              (byte_of (map_long v 0 255 0 0))
              (byte_of (map_long v 0 255 0 (uint hue1 * 3)))
      else if hue1 < 170 then
        (let hue2 = hue1 - 85 in
         Color (byte_of (map_long v 0 255 0 0))
               (byte_of (map_long v 0 255 0 (uint hue2 * 3)))
               (byte_of (map_long v 0 255 0 (255 - uint hue2 * 3))))
      else
        (let hue2 = hue1 - 170 in
         Color (byte_of (map_long v 0 255 0 (uint hue2 * 3)))
               (byte_of (map_long v 0 255 0 (255 - uint hue2 * 3)))
               (byte_of (map_long v 0 255 0 0))))"

definition colorWheel :: "8 word \<Rightarrow> color" where
  "colorWheel pos0 =
     (let pos1 = byte_of (255 - uint pos0) in
      if pos1 < 85 then
        Color (byte_of (255 - uint pos1 * 3)) 0 (byte_of (uint pos1 * 3))
      else if pos1 < 170 then
        (let pos2 = pos1 - 85 in
         Color 0 (byte_of (uint pos2 * 3)) (byte_of (255 - uint pos2 * 3)))
      else
        (let pos2 = pos1 - 170 in
         Color (byte_of (uint pos2 * 3)) (byte_of (255 - uint pos2 * 3)) 0))"

definition showRainbowStatic :: "strip \<Rightarrow> nat \<Rightarrow> strip" where
  "showRainbowStatic st n =
     show_strip
       (fold (\<lambda>i. setPixelColor i (colorWheel (byte_of (int i * (255 div max 1 (int n - 1))))))
          [0..<n] st)"

text \<open>What is written to the serial port; a \<open>float\<close> is printed with two decimals.\<close>

datatype serial_event = SerialStr string | SerialFloat real | SerialLn

definition printDistance :: "cfloat \<Rightarrow> serial_event list" where
  "printDistance cm =
     (case cm of
        None \<Rightarrow> [SerialStr [CHR 0xE2, CHR 0x80, CHR 0x94]]
      | Some d \<Rightarrow> [SerialFloat d, SerialStr '' cm''])"

record lights =
  stripA :: strip
  stripB :: strip
  hue :: "8 word"
  sat :: "8 word"
  val :: real
  lastBreathUpdate :: millis
  lastPrint :: millis
  serial :: "serial_event list"

text \<open>
  The inputs of one call of \<open>runUltrasonicSensing\<close>: the two distance readings, the
  readings of \<open>millis()\<close> in program order, and \<open>breath_val\<close>, the \<open>float\<close> that the
  board computes for \<open>valueMin + dV\<close> from its second reading of the clock. The
  single-precision \<open>exp\<close> and \<open>sin\<close> of the board's library are not part of the model.
\<close>

record sense_in =
  distA :: cfloat
  distB :: cfloat
  breath_t1 :: millis
  breath_val :: real
  breath_t3 :: millis
  print_t1 :: millis
  print_t2 :: millis

text \<open>
  The conversion of a \<open>float\<close> to an integer type drops the fraction. A value outside
  the range of the target type is undefined behaviour in C; \<open>byte_of\<close> wraps it.
\<close>

definition ftrunc :: "real \<Rightarrow> int" where
  "ftrunc v = (if v \<ge> 0 then \<lfloor>v\<rfloor> else \<lceil>v\<rceil>)"

text \<open>
  \<open>showBreathingEffect\<close> on a strip passed by reference: it returns the strip and the
  global variables it has written.
\<close>

definition showBreathingEffect :: "strip \<Rightarrow> nat \<Rightarrow> sense_in \<Rightarrow> lights \<Rightarrow> strip \<times> lights" where
  "showBreathingEffect st numLeds inp l =
     (if breath_t1 inp - lastBreathUpdate l > BREATH_INTERVAL then
        (let v = breath_val inp;
             h = byte_of (map_long (ftrunc v) 120 255 15 95);
             s = byte_of (map_long (ftrunc v) 120 255 230 255);
             color = colorWheelBreathing h s (byte_of (ftrunc v));
             st1 = show_strip (fold (\<lambda>i. setPixelColor i color) [0..<numLeds] st)
         in (st1, l\<lparr>hue := h, sat := s, val := v, lastBreathUpdate := breath_t3 inp\<rparr>))
      else (st, l))"

definition runUltrasonicSensing :: "sense_in \<Rightarrow> lights \<Rightarrow> lights" where
  "runUltrasonicSensing inp l =
     (let l1 = (if (case distA inp of None \<Rightarrow> False | Some dA \<Rightarrow> dA > THRESH_CM)
                then (case showBreathingEffect (stripA l) LED_COUNT_A inp l of
                        (st, l') \<Rightarrow> l'\<lparr>stripA := st\<rparr>)
                else l\<lparr>stripA := clearStrip (stripA l) LED_COUNT_A\<rparr>);
          l2 = (if (case distB inp of None \<Rightarrow> False | Some dB \<Rightarrow> dB > THRESH_CM)
                then l1\<lparr>stripB := showRainbowStatic (stripB l1) LED_COUNT_B\<rparr>
                else l1\<lparr>stripB := clearStrip (stripB l1) LED_COUNT_B\<rparr>)
      in if print_t1 inp - lastPrint l2 > 2000 then
           l2\<lparr>serial := serial l2 @ [SerialStr ''A: ''] @ printDistance (distA inp) @
                           [SerialStr '' | B: ''] @ printDistance (distB inp) @ [SerialLn],
               lastPrint := print_t2 inp\<rparr>
         else l2)"

text \<open>The light variables after \<open>setup()\<close>: both strips dark, one empty frame shown.\<close>

definition strip0 :: "nat \<Rightarrow> strip" where
  "strip0 n = \<lparr>pixels = replicate n 0, sent = [replicate n 0]\<rparr>"

definition lights0 :: lights where
  "lights0 = \<lparr>stripA = strip0 LED_COUNT_A, stripB = strip0 LED_COUNT_B,
              hue = 15, sat = 230, val = 120, lastBreathUpdate = 0, lastPrint = 0,
              serial = []\<rparr>"

fun run_lights :: "sense_in list \<Rightarrow> lights \<Rightarrow> lights" where
  "run_lights [] l = l"
| "run_lights (inp # inps) l = run_lights inps (runUltrasonicSensing inp l)"

text \<open>
  The test \<open>!isnan(d) && d > THRESH_CM\<close> that \<open>runUltrasonicSensing\<close> applies to each
  of its two readings, on its own.
\<close>

definition gate :: "cfloat \<Rightarrow> bool" where
  "gate d = (case d of None \<Rightarrow> False | Some x \<Rightarrow> x > THRESH_CM)"

text \<open>The frame that \<open>showRainbowStatic\<close> writes to a strip of \<open>n\<close> pixels.\<close>

definition rainbow :: "nat \<Rightarrow> color list" where
  "rainbow n = map (\<lambda>i. colorWheel (byte_of (int i * (255 div max 1 (int n - 1))))) [0..<n]"

text \<open>The colour that \<open>showBreathingEffect\<close> computes from the envelope value \<open>v\<close>.\<close>

definition breath_color :: "real \<Rightarrow> color" where
  "breath_color v =
     colorWheelBreathing (byte_of (map_long (ftrunc v) 120 255 15 95))
       (byte_of (map_long (ftrunc v) 120 255 230 255)) (byte_of (ftrunc v))"

text \<open>Both strips have the five pixels they were constructed with.\<close>

definition lights_ok :: "lights \<Rightarrow> bool" where
  "lights_ok l \<longleftrightarrow>
     length (pixels (stripA l)) = LED_COUNT_A \<and> length (pixels (stripB l)) = LED_COUNT_B"

section \<open>Desktop application (Form1.cs): signal conditioner and slideshow\<close>

text \<open>
  A \<open>DateTime\<close> is its number of ticks (100 ns each), \<open>DateTime.MinValue\<close> is tick 0 and
  marks an edge timer that is not set. A \<open>double\<close> is either NaN (\<open>None\<close>) or its value
  as a real number, and comparisons of doubles are comparisons of these values. The
  arithmetic on doubles is not part of the model: the mean that \<open>Smoothed\<close> computes
  from its queue is an input of the model, as the clock readings are. The serial port
  decodes bytes as ASCII, so a line is a \<open>string\<close> of 8-bit characters.

  \<open>BeginInvoke\<close> does not call its delegate: it posts it to the queue of the thread
  that owns the window, which runs it later. The model keeps that queue (\<open>posted\<close>),
  and the list of everything that has ever been posted (\<open>emitted\<close>).
\<close>

type_synonym datetime = int
type_synonym image = string

datatype decision = Start | Stop

definition MinValue :: datetime where "MinValue = 0"
text \<open>
  The constants \<open>2.8\<close> and \<open>3.5\<close> of the source are doubles: the double nearest to 2.8
  is \<open>3152519739159347 / 2 ^ 50\<close>, a little below 2.8, and 3.5 is a double itself.
\<close>

definition StartThresh :: real where "StartThresh = 3152519739159347 / 2 ^ 50"
definition StopThresh :: real where "StopThresh = 3.5"
definition ms_ticks :: "int \<Rightarrow> int" where "ms_ticks n = n * 10000"
definition startDebounce :: int where "startDebounce = ms_ticks 250"
definition stopDebounce :: int where "stopDebounce = ms_ticks 700"
definition SmoothCount :: nat where "SmoothCount = 5"

record app =
  belowStart :: datetime
  aboveStart :: datetime
  last_q :: "real list"
  slideshowOn :: bool
  images :: "image list"
  imgIdx :: int
  picture :: "image option"
  timerOn :: bool
  posted :: "decision list"
  emitted :: "decision list"

subsection \<open>The regular expression and \<open>ParseDistanceB\<close>\<close>

text \<open>
  The classes \<open>\<bsol>d\<close>, \<open>\<bsol>s\<close> and \<open>\<bsol>w\<close> on ASCII characters, by character code:
  digits are 48..57, white space is the blank and 9..13, word characters are the letters
  (65..90, 97..122), the digits and the underscore.
\<close>

definition is_digit :: "char \<Rightarrow> bool" where
  "is_digit c \<longleftrightarrow> 48 \<le> (of_char c :: nat) \<and> (of_char c :: nat) \<le> 57"

definition is_space :: "char \<Rightarrow> bool" where
  "is_space c \<longleftrightarrow> c = CHR '' '' \<or> (9 \<le> (of_char c :: nat) \<and> (of_char c :: nat) \<le> 13)"

definition is_word :: "char \<Rightarrow> bool" where
  "is_word c \<longleftrightarrow>
     (97 \<le> (of_char c :: nat) \<and> (of_char c :: nat) \<le> 122)
     \<or> (65 \<le> (of_char c :: nat) \<and> (of_char c :: nat) \<le> 90)
     \<or> is_digit c \<or> c = CHR ''_''"

definition digit_val :: "char \<Rightarrow> nat" where
  "digit_val c = of_char c - 48"

definition digits_val :: "string \<Rightarrow> nat" where
  "digits_val ds = foldl (\<lambda>n c. 10 * n + digit_val c) 0 ds"

text \<open>
  The part of the pattern after \<open>\<bsol>b\<close>, tried at the head of \<open>cs\<close>:
  \<open>B:\<bsol>s*([-+]?\<bsol>d+(?:\<bsol>.\<bsol>d+)?)\<close>, case-insensitive. The rest of the pattern,
  \<open>\<bsol>s*(?:cm)?\<close>, matches the empty string and never makes the match fail. The result
  is group 1 as (negative, integer digits, fraction digits).
\<close>

definition match_here :: "string \<Rightarrow> (bool \<times> string \<times> string) option" where
  "match_here cs =
     (case cs of
        b # col # r \<Rightarrow>
          if (b = CHR ''B'' \<or> b = CHR ''b'') \<and> col = CHR '':'' then
            (let r1 = dropWhile is_space r;
                 neg = (r1 \<noteq> [] \<and> hd r1 = CHR ''-'');
                 r2 = (if r1 \<noteq> [] \<and> (hd r1 = CHR ''-'' \<or> hd r1 = CHR ''+'') then tl r1 else r1);
                 ds = takeWhile is_digit r2;
                 r3 = dropWhile is_digit r2;
                 fs = (case r3 of
                         dot # r4 \<Rightarrow> if dot = CHR ''.'' then takeWhile is_digit r4 else []
                       | [] \<Rightarrow> [])
             in if ds = [] then None else Some (neg, ds, fs))
          else None
      | _ \<Rightarrow> None)"

text \<open>
  The search for the leftmost match; \<open>prev_word\<close> tells whether the character before
  \<open>cs\<close> is a word character, for the word boundary \<open>\<bsol>b\<close> in front of \<open>B\<close>.
\<close>

fun regex_search :: "bool \<Rightarrow> string \<Rightarrow> (bool \<times> string \<times> string) option" where
  "regex_search prev_word [] = None"
| "regex_search prev_word (c # cs) =
     (case (if prev_word then None else match_here (c # cs)) of
        Some m \<Rightarrow> Some m
      | None \<Rightarrow> regex_search (is_word c) cs)"

text \<open>
  The value of group 1 as \<open>double.TryParse\<close> reads it: a sign, digits and an optional
  fraction parse. The value is taken before rounding to a \<open>double\<close>, and its
  magnitude is taken to be within the range of a \<open>double\<close>.
\<close>

definition group_value :: "bool \<times> string \<times> string \<Rightarrow> real" where
  "group_value m =
     (case m of (neg, ds, fs) \<Rightarrow>
        (let x = real (digits_val ds) + real (digits_val fs) / 10 ^ length fs
         in if neg then - x else x))"

definition ParseDistanceB :: "string \<Rightarrow> real option" where
  "ParseDistanceB line =
     (case regex_search False line of
        None \<Rightarrow> None
      | Some m \<Rightarrow> Some (group_value m))"

subsection \<open>Smoothing\<close>

text \<open>
  \<open>Smoothed\<close> returns the new queue and the mean of its contents. \<open>m\<close> is the double
  that the code computes for \<open>sum / n\<close>, by adding the doubles of the queue and dividing;
  it is near the mean of the readings and need not be equal to it.
\<close>

definition Smoothed :: "real \<Rightarrow> real \<Rightarrow> real list \<Rightarrow> real list \<times> real option" where
  "Smoothed cm m q =
     (let q1 = (if length q = SmoothCount then tl q else q);
          q2 = q1 @ [cm];
          n = length q2
      in (q2, if n > 0 then Some m else None))"

subsection \<open>Slideshow control\<close>

definition StartSlideshow :: "app \<Rightarrow> app" where
  "StartSlideshow s =
     (if slideshowOn s then s
      else
        (let s1 = s\<lparr>slideshowOn := True\<rparr> in
         if length (images s1) = 0 then s1
         else s1\<lparr>imgIdx := 0, picture := Some (images s1 ! 0), timerOn := True\<rparr>))"

definition StopSlideshow :: "app \<Rightarrow> app" where
  "StopSlideshow s =
     (if \<not> slideshowOn s then s
      else s\<lparr>slideshowOn := False, timerOn := False\<rparr>)"

definition AdvancePhoto :: "app \<Rightarrow> app" where
  "AdvancePhoto s =
     (if length (images s) = 0 then s
      else
        (let i = (imgIdx s + 1) mod int (length (images s))
         in s\<lparr>imgIdx := i, picture := Some (images s ! nat i)\<rparr>))"

text \<open>The part of \<open>button2_Click\<close> that touches the slideshow.\<close>

definition button2_Click :: "app \<Rightarrow> app" where
  "button2_Click s = (StopSlideshow s)\<lparr>picture := None\<rparr>"

definition BeginInvoke :: "decision \<Rightarrow> app \<Rightarrow> app" where
  "BeginInvoke d s = s\<lparr>posted := posted s @ [d], emitted := emitted s @ [d]\<rparr>"

definition run_decision :: "decision \<Rightarrow> app \<Rightarrow> app" where
  "run_decision d s = (case d of Start \<Rightarrow> StartSlideshow s | Stop \<Rightarrow> StopSlideshow s)"

subsection \<open>The body of the loop of \<open>Port_DataReceived\<close>\<close>

text \<open>
  The hysteresis and debounce on a smoothed value \<open>b\<close>. \<open>now1\<close> is the reading of
  \<open>DateTime.UtcNow\<close> that may be stored in an edge timer, \<open>now2\<close> the reading compared
  with it.
\<close>

definition debounce :: "real \<Rightarrow> datetime \<Rightarrow> datetime \<Rightarrow> app \<Rightarrow> app" where
  "debounce b now1 now2 s =
     (if b < StartThresh then
        (let s1 = (if belowStart s = MinValue then s\<lparr>belowStart := now1\<rparr> else s);
             s2 = s1\<lparr>aboveStart := MinValue\<rparr>
         in if \<not> slideshowOn s2 \<and> now2 - belowStart s2 \<ge> startDebounce
            then BeginInvoke Start s2 else s2)
      else if b > StopThresh then
        (let s1 = (if aboveStart s = MinValue then s\<lparr>aboveStart := now1\<rparr> else s);
             s2 = s1\<lparr>belowStart := MinValue\<rparr>
         in if slideshowOn s2 \<and> now2 - aboveStart s2 \<ge> stopDebounce
            then BeginInvoke Stop s2 else s2)
      else s\<lparr>belowStart := MinValue, aboveStart := MinValue\<rparr>)"

definition ingest :: "string \<Rightarrow> real \<Rightarrow> datetime \<Rightarrow> datetime \<Rightarrow> app \<Rightarrow> app" where
  "ingest line m now1 now2 s =
     (case ParseDistanceB line of
        None \<Rightarrow> s
      | Some b0 \<Rightarrow>
          (case Smoothed b0 m (last_q s) of
             (q, None) \<Rightarrow> s\<lparr>last_q := q\<rparr>
           | (q, Some b) \<Rightarrow> debounce b now1 now2 (s\<lparr>last_q := q\<rparr>)))"

text \<open>
  \<open>chunk.Split\<close> on \<open>"\<bsol>r\<bsol>n"\<close>, \<open>"\<bsol>n"\<close> and \<open>"\<bsol>r"\<close> with \<open>RemoveEmptyEntries\<close>:
  the maximal runs of characters other than CR and LF.
\<close>

definition is_eol :: "char \<Rightarrow> bool" where
  "is_eol c \<longleftrightarrow> c = CHR 0x0A \<or> c = CHR 0x0D"

fun split_lines :: "string \<Rightarrow> string \<Rightarrow> string list" where
  "split_lines acc [] = (if acc = [] then [] else [acc])"
| "split_lines acc (c # cs) =
     (if is_eol c then (if acc = [] then [] else [acc]) @ split_lines [] cs
      else split_lines (acc @ [c]) cs)"

text \<open>
  \<open>clk k\<close> gives what is read while line \<open>k\<close> of the chunk is handled: the mean computed
  by \<open>Smoothed\<close> and the two clock readings.
\<close>

fun process_lines ::
  "(nat \<Rightarrow> real \<times> datetime \<times> datetime) \<Rightarrow> nat \<Rightarrow> string list \<Rightarrow> app \<Rightarrow> app" where
  "process_lines clk k [] s = s"
| "process_lines clk k (line # ls) s =
     process_lines clk (Suc k) ls
       (ingest line (fst (clk k)) (fst (snd (clk k))) (snd (snd (clk k))) s)"

definition Port_DataReceived ::
  "(nat \<Rightarrow> real \<times> datetime \<times> datetime) \<Rightarrow> string \<Rightarrow> app \<Rightarrow> app" where
  "Port_DataReceived clk chunk s =
     (if chunk = [] then s else process_lines clk 0 (split_lines [] chunk) s)"

subsection \<open>Runs of the application\<close>

text \<open>
  What can happen to the application, one event at a time: a line of the serial stream is
  handled (with the mean and the two clock readings of that line), the window's thread runs the oldest posted decision, the slide timer fires, or
  the user clicks Disconnect.
\<close>

datatype app_event =
    Line string real datetime datetime
  | Dispatch
  | SlideTick
  | Disconnect

definition dispatch :: "app \<Rightarrow> app" where
  "dispatch s =
     (case posted s of
        [] \<Rightarrow> s
      | d # ds \<Rightarrow> run_decision d (s\<lparr>posted := ds\<rparr>))"

definition slide_tick :: "app \<Rightarrow> app" where
  "slide_tick s = (if timerOn s then AdvancePhoto s else s)"

fun app_step :: "app_event \<Rightarrow> app \<Rightarrow> app" where
  "app_step (Line line m now1 now2) s = ingest line m now1 now2 s"
| "app_step Dispatch s = dispatch s"
| "app_step SlideTick s = slide_tick s"
| "app_step Disconnect s = button2_Click s"

fun run_app :: "app_event list \<Rightarrow> app \<Rightarrow> app" where
  "run_app [] s = s"
| "run_app (e # es) s = run_app es (app_step e s)"

text \<open>The application after the constructor has loaded the photos \<open>imgs\<close>.\<close>

definition app0 :: "image list \<Rightarrow> app" where
  "app0 imgs = \<lparr>belowStart = MinValue, aboveStart = MinValue, last_q = [], slideshowOn = False,
                images = imgs, imgIdx = 0, picture = None, timerOn = False,
                posted = [], emitted = []\<rparr>"

text \<open>No two neighbours of the list are the same decision.\<close>

fun alternating :: "decision list \<Rightarrow> bool" where
  "alternating (x # y # zs) = (x \<noteq> y \<and> alternating (y # zs))"
| "alternating _ = True"

text \<open>
  A run is prompt when every posted decision has been run by the window's thread before
  the next line is handled.
\<close>

fun prompt :: "app_event list \<Rightarrow> app \<Rightarrow> bool" where
  "prompt [] s = True"
| "prompt (e # es) s =
     ((case e of Line _ _ _ _ \<Rightarrow> posted s = [] | _ \<Rightarrow> True) \<and> prompt es (app_step e s))"

text \<open>A line has a label when a \<open>B\<close> or \<open>b\<close> is directly followed by a colon.\<close>

fun has_label :: "string \<Rightarrow> bool" where
  "has_label (b # c # r) =
     (((b = CHR ''B'' \<or> b = CHR ''b'') \<and> c = CHR '':'') \<or> has_label (c # r))"
| "has_label _ = False"

text \<open>
  The invariant of a prompt run: the decisions posted so far alternate and begin with
  \<open>Start\<close>, at most one of them is waiting for the window's thread, and the flag \<open>_slideshowOn\<close> tells the last
  decision that this thread has run.
\<close>

definition sync_inv :: "app \<Rightarrow> bool" where
  "sync_inv s \<longleftrightarrow>
     alternating (emitted s) \<and> (emitted s \<noteq> [] \<longrightarrow> hd (emitted s) = Start) \<and>
     (case posted s of
        [] \<Rightarrow> slideshowOn s = (emitted s \<noteq> [] \<and> List.last (emitted s) = Start)
      | [d] \<Rightarrow> emitted s \<noteq> [] \<and> List.last (emitted s) = d \<and> slideshowOn s = (d = Stop)
      | _ \<Rightarrow> False)"

text \<open>The slide timer runs only while the slideshow is on.\<close>

definition timer_inv :: "app \<Rightarrow> bool" where
  "timer_inv s \<longleftrightarrow> (timerOn s \<longrightarrow> slideshowOn s)"

section \<open>Properties of the memory game\<close>


lemma melodyLength_15: "melodyLength = 15"
  by (simp add: melodyLength_def melody_def)

lemma melody_range: "\<forall>n\<in>set melody. 1 \<le> n \<and> n \<le> 6"
  by (simp add: melody_def)

lemma melody_at_in_bounds:
  assumes "0 \<le> i" and "i < 15"
  shows "\<exists>n. melody_at i = Some n \<and> 1 \<le> n \<and> n \<le> 6"
proof -
  have "nat i < length melody" using assms by (simp add: melody_def)
  then have "melody ! nat i \<in> set melody" by (rule nth_mem)
  with melody_range have "1 \<le> melody ! nat i \<and> melody ! nat i \<le> 6" by blast
  with assms show ?thesis by (simp add: melody_at_def melodyLength_15)
qed

lemma game_inv_game0: "game_inv game0"
  by (simp add: game_inv_def game0_def)

lemma game_inv_emit [simp]: "game_inv (emit es g) = game_inv g"
  by (simp add: game_inv_def emit_def)

lemma emit_fields [simp]:
  "turn (emit es g) = turn g" "currentStep (emit es g) = currentStep g"
  "showingSequence (emit es g) = showingSequence g"
  "waitingForInput (emit es g) = waitingForInput g"
  "lastActionTime (emit es g) = lastActionTime g"
  "out (emit es g) = out g @ es"
  by (simp_all add: emit_def)

lemma playNote_fields [simp]:
  "turn (playNote n g) = turn g" "currentStep (playNote n g) = currentStep g"
  "showingSequence (playNote n g) = showingSequence g"
  "waitingForInput (playNote n g) = waitingForInput g"
  "lastActionTime (playNote n g) = lastActionTime g"
  by (simp_all add: playNote_def Let_def)

lemma checkGameInput_inv:
  assumes "game_inv g"
  shows "\<exists>g'. checkGameInput b g = Some g' \<and> game_inv g'"
proof (cases "waitingForInput g")
  case False
  with assms show ?thesis by (simp add: checkGameInput_def)
next
  case True
  with assms have b: "0 \<le> currentStep g" "currentStep g < 15" "currentStep g \<le> turn g" "turn g < 15"
    by (auto simp: game_inv_def)
  from melody_at_in_bounds [OF b(1,2)] obtain n where n: "melody_at (currentStep g) = Some n"
    by blast
  show ?thesis using True assms n b
    by (auto simp: checkGameInput_def failSequence_def game_inv_def Let_def)
qed

lemma handleButton_inv:
  assumes "game_inv g"
  shows "\<exists>g'. handleButton i p g = Some g' \<and> game_inv g'"
  using assms checkGameInput_inv [of "emit [Tone SPEAKER_PIN (notes_tbl ! i) 200] (emit [DigitalWrite (ledPins ! i) p] g)" "int i + 1"]
  by (auto simp: handleButton_def Let_def)

lemma scanButtons_inv:
  "game_inv g \<Longrightarrow> \<exists>g'. scanButtons js pr g = Some g' \<and> game_inv g'"
proof (induction js arbitrary: g)
  case Nil
  then show ?case by simp
next
  case (Cons i js)
  from handleButton_inv [OF Cons.prems] obtain g1 where
    g1: "handleButton i (pr i) g = Some g1" "game_inv g1" by blast
  from Cons.IH [OF g1(2)] g1(1) show ?case by simp
qed

lemma runMemoryGame_inv:
  assumes "game_inv g"
  shows "\<exists>g'. runMemoryGame t1 t2 g = Some g' \<and> game_inv g'"
proof (cases "turn g \<ge> melodyLength")
  case True
  then show ?thesis
    by (simp add: runMemoryGame_def winSequence_def game_inv_def)
next
  case False
  define g1 where "g1 = (if \<not> showingSequence g \<and> \<not> waitingForInput g
                  then (emit [Print ''Turn '', PrintlnInt (turn g + 1)] g)
                         \<lparr>showingSequence := True, currentStep := 0\<rparr>
                  else g)"
  have i1: "game_inv g1" and t1: "turn g1 < 15"
    using assms False by (auto simp: g1_def game_inv_def melodyLength_15)
  have r: "runMemoryGame t1 t2 g =
       (if showingSequence g1 \<and> t1 - lastActionTime g1 > STEP_DELAY then
             (if currentStep g1 \<le> turn g1 then
                (case melody_at (currentStep g1) of
                   None \<Rightarrow> None
                 | Some n \<Rightarrow>
                     Some ((playNote n g1)
                       \<lparr>currentStep := currentStep g1 + 1, lastActionTime := t2\<rparr>))
              else
                Some ((emit [Println ''Your turn!''] g1)
                  \<lparr>showingSequence := False, waitingForInput := True, currentStep := 0\<rparr>))
           else Some g1)"
    unfolding runMemoryGame_def Let_def g1_def using False by (simp only: if_False)
  show ?thesis
  proof (cases "showingSequence g1 \<and> t1 - lastActionTime g1 > STEP_DELAY")
    case False
    with r i1 show ?thesis by auto
  next
    case True
    show ?thesis
    proof (cases "currentStep g1 \<le> turn g1")
      case le: True
      from i1 have "0 \<le> currentStep g1" by (simp add: game_inv_def)
      moreover from le t1 have "currentStep g1 < 15" by simp
      ultimately obtain n where n: "melody_at (currentStep g1) = Some n"
        using melody_at_in_bounds by blast
      show ?thesis using r True le n i1 t1
        by (auto simp: game_inv_def)
    next
      case gt: False
      show ?thesis using r True gt i1 t1
        by (auto simp: game_inv_def)
    qed
  qed
qed

lemma game_loop_inv:
  assumes "game_inv g"
  shows "\<exists>g'. game_loop tk g = Some g' \<and> game_inv g'"
proof -
  from scanButtons_inv [OF assms] obtain g1 where
    g1: "handleButtons (buttons tk) g = Some g1" "game_inv g1"
    unfolding handleButtons_def by blast
  from runMemoryGame_inv [OF g1(2), of "clock1 tk" "clock2 tk"] obtain g2 where
    g2: "runMemoryGame (clock1 tk) (clock2 tk) g1 = Some g2" "game_inv g2" by blast
  with g1(1) show ?thesis
    by (simp add: game_loop_def)
qed

lemma run_game_inv:
  "game_inv g \<Longrightarrow> \<exists>g'. run_game tks g = Some g' \<and> game_inv g'"
proof (induction tks arbitrary: g)
  case Nil
  then show ?case by simp
next
  case (Cons tk tks)
  from game_loop_inv [OF Cons.prems] obtain g1 where
    g1: "game_loop tk g = Some g1" "game_inv g1" by blast
  from Cons.IH [OF g1(2)] g1(1) show ?case by simp
qed


lemma game_inv_awaiting:
  assumes "game_inv g" and "waitingForInput g"
  shows "0 \<le> currentStep g \<and> currentStep g \<le> turn g \<and> turn g < 15
         \<and> (\<exists>n. melody_at (currentStep g) = Some n \<and> 1 \<le> n \<and> n \<le> 6)"
proof -
  from assms have b: "0 \<le> currentStep g" "currentStep g \<le> turn g" "turn g < 15"
    by (auto simp: game_inv_def)
  then have "currentStep g < 15" by simp
  from melody_at_in_bounds [OF b(1) this] b show ?thesis by simp
qed

lemma level_step_refl: "level_step g g"
  by (simp add: level_step_def)

lemma level_step_trans: "level_step g g1 \<Longrightarrow> level_step g1 g2 \<Longrightarrow> level_step g g2"
  by (auto simp: level_step_def)

lemma checkGameInput_correct:
  assumes "game_inv g" and "waitingForInput g" and "melody_at (currentStep g) = Some b"
  shows "checkGameInput b g =
     Some (if currentStep g < turn g
           then (emit [Println ''Correct!''] g)\<lparr>currentStep := currentStep g + 1\<rparr>
           else (emit [Println ''Correct!'', Println ''Good! Next level...'', Delay 1000] g)
                  \<lparr>currentStep := currentStep g + 1, turn := turn g + 1,
                    waitingForInput := False\<rparr>)"
  using assms by (auto simp: checkGameInput_def Let_def emit_def game_inv_def)

lemma checkGameInput_level_step:
  assumes "game_inv g" and "waitingForInput g \<longrightarrow> melody_at (currentStep g) = Some b"
  shows "\<exists>g'. checkGameInput b g = Some g' \<and> level_step g g' \<and> game_inv g'"
proof (cases "waitingForInput g")
  case False
  with assms show ?thesis by (simp add: checkGameInput_def level_step_def)
next
  case True
  with assms have m: "melody_at (currentStep g) = Some b" by simp
  from checkGameInput_inv [OF assms(1), of b] obtain g' where
    g': "checkGameInput b g = Some g'" "game_inv g'" by blast
  from g'(1) checkGameInput_correct [OF assms(1) True m] True have "level_step g g'"
    by (auto simp: level_step_def split: if_splits)
  with g' show ?thesis by blast
qed

lemma handleButton_level_step:
  assumes "game_inv g"
    and "p \<and> waitingForInput g \<longrightarrow> melody_at (currentStep g) = Some (int i + 1)"
  shows "\<exists>g'. handleButton i p g = Some g' \<and> level_step g g' \<and> game_inv g'"
proof (cases "p \<and> waitingForInput g")
  case False
  then show ?thesis using assms(1)
    by (auto simp: handleButton_def Let_def level_step_def)
next
  case True
  define g2 where "g2 = emit [Tone SPEAKER_PIN (notes_tbl ! i) 200] (emit [DigitalWrite (ledPins ! i) p] g)"
  have i2: "game_inv g2" using assms(1) by (simp add: g2_def)
  have w2: "waitingForInput g2 \<longrightarrow> melody_at (currentStep g2) = Some (int i + 1)"
    using assms(2) True by (simp add: g2_def)
  from checkGameInput_level_step [OF i2 w2] obtain g' where
    g': "checkGameInput (int i + 1) g2 = Some g'" "level_step g2 g'" "game_inv g'" by blast
  have "handleButton i p g = checkGameInput (int i + 1) g2"
    using True by (simp add: handleButton_def g2_def Let_def)
  moreover have "level_step g g'" using g'(2) by (simp add: level_step_def g2_def)
  ultimately show ?thesis using g' by simp
qed

lemma scanButtons_level_step:
  "game_inv g \<Longrightarrow> correctScan js pr g \<Longrightarrow>
     \<exists>g'. scanButtons js pr g = Some g' \<and> level_step g g' \<and> game_inv g'"
proof (induction js arbitrary: g)
  case Nil
  then show ?case by (simp add: level_step_refl)
next
  case (Cons i js)
  from Cons.prems(2) have c: "pr i \<and> waitingForInput g \<longrightarrow> melody_at (currentStep g) = Some (int i + 1)"
    by (simp split: if_splits)
  from handleButton_level_step [OF Cons.prems(1) c] obtain g1 where
    g1: "handleButton i (pr i) g = Some g1" "level_step g g1" "game_inv g1" by blast
  from Cons.prems(2) g1(1) have "correctScan js pr g1" by simp
  from Cons.IH [OF g1(3) this] obtain g2 where
    g2: "scanButtons js pr g1 = Some g2" "level_step g1 g2" "game_inv g2" by blast
  from g1 g2 level_step_trans [OF g1(2) g2(2)] show ?case by simp
qed

lemma runMemoryGame_win:
  assumes "turn g \<ge> 15"
  shows "runMemoryGame t1 t2 g =
     Some (g\<lparr>turn := 0, currentStep := 0, showingSequence := False, waitingForInput := False,
             out := out g @ win_events\<rparr>)"
  using assms by (simp add: runMemoryGame_def melodyLength_15 winSequence_def emit_def)

lemma runMemoryGame_keeps_turn:
  assumes "turn g < 15" and "runMemoryGame t1 t2 g = Some g'"
  shows "turn g' = turn g"
  using assms
  by (auto simp: runMemoryGame_def melodyLength_15 Let_def split: if_splits option.splits)


lemma enter_append:
  "enter (xs @ ys) g = (case enter xs g of None \<Rightarrow> None | Some g' \<Rightarrow> enter ys g')"
  by (induction xs arbitrary: g) (auto split: option.splits)

lemma prefix_at_Cons:
  assumes "0 \<le> currentStep g" and "currentStep g \<le> turn g" and "turn g < 15"
  shows "prefix_at g = melody ! nat (currentStep g)
           # drop (nat (currentStep g) + 1) (take (nat (turn g) + 1) melody)"
proof -
  have "nat (currentStep g) < length (take (nat (turn g) + 1) melody)"
    using assms by (simp add: melody_def)
  then have "drop (nat (currentStep g)) (take (nat (turn g) + 1) melody) =
      take (nat (turn g) + 1) melody ! nat (currentStep g)
        # drop (Suc (nat (currentStep g))) (take (nat (turn g) + 1) melody)"
    by (rule Cons_nth_drop_Suc [symmetric])
  moreover have "take (nat (turn g) + 1) melody ! nat (currentStep g) = melody ! nat (currentStep g)"
    using assms by simp
  ultimately show ?thesis by (simp add: prefix_at_def)
qed

lemma length_prefix_at:
  assumes "0 \<le> currentStep g" and "currentStep g \<le> turn g" and "turn g < 15"
  shows "length (prefix_at g) = nat (turn g - currentStep g) + 1"
  using assms by (simp add: prefix_at_def melody_def)

lemma enter_prefix:
  "game_inv g \<Longrightarrow> waitingForInput g \<Longrightarrow> n = nat (turn g - currentStep g) \<Longrightarrow>
     (\<exists>g'. enter (prefix_at g) g = Some g' \<and> turn g' = turn g + 1
        \<and> \<not> waitingForInput g' \<and> \<not> showingSequence g' \<and> game_inv g')
     \<and> (\<forall>k < length (prefix_at g). \<exists>g''. enter (take k (prefix_at g)) g = Some g''
           \<and> turn g'' = turn g \<and> waitingForInput g'' \<and> currentStep g'' = currentStep g + int k)"
proof (induction n arbitrary: g)
  case 0
  then have b: "0 \<le> currentStep g" "currentStep g \<le> turn g" "turn g < 15"
    by (auto simp: game_inv_def)
  with 0 have eq: "currentStep g = turn g" by simp
  from b have m: "melody_at (currentStep g) = Some (melody ! nat (currentStep g))"
    by (simp add: melody_at_def melodyLength_15)
  have p: "prefix_at g = [melody ! nat (currentStep g)]"
    using prefix_at_Cons [OF b] eq b by (simp add: melody_def)
  from checkGameInput_inv [OF "0.prems"(1)] obtain g' where
    g': "checkGameInput (melody ! nat (currentStep g)) g = Some g'" "game_inv g'" by blast
  from g'(1) checkGameInput_correct [OF "0.prems"(1,2) m] eq
  have "turn g' = turn g + 1 \<and> \<not> waitingForInput g' \<and> \<not> showingSequence g'"
    using "0.prems"(1,2) by (auto simp: game_inv_def)
  with g' p "0.prems"(2) show ?case by simp
next
  case (Suc n)
  then have b: "0 \<le> currentStep g" "currentStep g \<le> turn g" "turn g < 15"
    by (auto simp: game_inv_def)
  from Suc.prems(3) have lt: "currentStep g < turn g" by simp
  from b have m: "melody_at (currentStep g) = Some (melody ! nat (currentStep g))"
    by (simp add: melody_at_def melodyLength_15)
  define g1 where "g1 = (emit [Println ''Correct!''] g)\<lparr>currentStep := currentStep g + 1\<rparr>"
  have c: "checkGameInput (melody ! nat (currentStep g)) g = Some g1"
    using checkGameInput_correct [OF Suc.prems(1,2) m] lt by (simp add: g1_def)
  have i1: "game_inv g1" using checkGameInput_inv [OF Suc.prems(1), of "melody ! nat (currentStep g)"] c
    by simp
  have w1: "waitingForInput g1" and t1: "turn g1 = turn g" and s1: "currentStep g1 = currentStep g + 1"
    using Suc.prems(2) by (simp_all add: g1_def)
  have n1: "n = nat (turn g1 - currentStep g1)" using Suc.prems(3) t1 s1 by simp
  have p: "prefix_at g = melody ! nat (currentStep g) # prefix_at g1"
    using prefix_at_Cons [OF b] b t1 s1 by (simp add: prefix_at_def nat_add_distrib)
  from Suc.IH [OF i1 w1 n1] have
    full: "\<exists>g'. enter (prefix_at g1) g1 = Some g' \<and> turn g' = turn g1 + 1
        \<and> \<not> waitingForInput g' \<and> \<not> showingSequence g' \<and> game_inv g'"
    and part: "\<forall>k < length (prefix_at g1). \<exists>g''. enter (take k (prefix_at g1)) g1 = Some g''
           \<and> turn g'' = turn g1 \<and> waitingForInput g'' \<and> currentStep g'' = currentStep g1 + int k"
    by blast+
  have "\<exists>g''. enter (take k (prefix_at g)) g = Some g''
           \<and> turn g'' = turn g \<and> waitingForInput g'' \<and> currentStep g'' = currentStep g + int k"
    if k: "k < length (prefix_at g)" for k
  proof (cases k)
    case 0
    then show ?thesis using Suc.prems(2) by simp
  next
    case (Suc j)
    with k p have "j < length (prefix_at g1)" by simp
    with part obtain g'' where "enter (take j (prefix_at g1)) g1 = Some g''"
      "turn g'' = turn g1" "waitingForInput g''" "currentStep g'' = currentStep g1 + int j"
      by blast
    then show ?thesis using Suc p c t1 s1 by simp
  qed
  with full p c t1 show ?case by simp
qed

lemma reach_level0:
  "\<exists>g. run_game [tick_idle 1000, tick_idle 2000] game0 = Some g \<and> waitingForInput g
     \<and> turn g = 0 \<and> currentStep g = 0 \<and> \<not> showingSequence g"
  by (simp add: tick_idle_def game_loop_def handleButtons_def handleButton_def upt_rec
      game0_def runMemoryGame_def emit_def melodyLength_15 STEP_DELAY_def melody_at_def
      playNote_def Let_def melody_def)

text \<open>
  Claim C10. From the state after \<open>setup()\<close>, every sequence of loop iterations runs
  without an out-of-bounds read of \<open>melody\<close> (the run returns \<open>Some\<close>). In the state
  reached, after any part of a button scan: when the game awaits input,
  \<open>0 \<le> currentStep \<le> turn < 15\<close> and the read \<open>melody[currentStep]\<close> of the next
  accepted press is inside the array; \<open>runMemoryGame\<close> reads inside the array too. Every
  entry of \<open>melody\<close> is in \<open>1..6\<close>, so \<open>playNote\<close> indexes \<open>ledPins\<close> and \<open>notes\<close>
  inside their six elements.
\<close>

theorem game_bounds:
  "\<exists>g. run_game tks game0 = Some g \<and>
     (\<forall>js pr. \<exists>g1. scanButtons js pr g = Some g1 \<and>
        (waitingForInput g1 \<longrightarrow>
           0 \<le> currentStep g1 \<and> currentStep g1 \<le> turn g1 \<and> turn g1 < 15
           \<and> (\<exists>n. melody_at (currentStep g1) = Some n)) \<and>
        (\<forall>t1 t2. \<exists>g2. runMemoryGame t1 t2 g1 = Some g2)) \<and>
     (\<forall>n \<in> set melody. 1 \<le> n \<and> n \<le> 6
        \<and> nat (n - 1) < length ledPins \<and> nat (n - 1) < length notes_tbl)"
proof -
  from run_game_inv [OF game_inv_game0] obtain g where
    g: "run_game tks game0 = Some g" "game_inv g" by blast
  have scan: "\<exists>g1. scanButtons js pr g = Some g1 \<and>
        (waitingForInput g1 \<longrightarrow>
           0 \<le> currentStep g1 \<and> currentStep g1 \<le> turn g1 \<and> turn g1 < 15
           \<and> (\<exists>n. melody_at (currentStep g1) = Some n)) \<and>
        (\<forall>t1 t2. \<exists>g2. runMemoryGame t1 t2 g1 = Some g2)" for js pr
  proof -
    from scanButtons_inv [OF g(2)] obtain g1 where
      g1: "scanButtons js pr g = Some g1" "game_inv g1" by blast
    have "\<exists>g2. runMemoryGame t1 t2 g1 = Some g2" for t1 t2
      using runMemoryGame_inv [OF g1(2)] by blast
    with g1 game_inv_awaiting [OF g1(2)] show ?thesis by blast
  qed
  have tbl: "\<forall>n \<in> set melody. 1 \<le> n \<and> n \<le> 6
        \<and> nat (n - 1) < length ledPins \<and> nat (n - 1) < length notes_tbl"
    by (simp add: melody_def ledPins_def notes_tbl_def)
  from g(1) scan tbl show ?thesis by blast
qed

theorem game_bounds_witness:
  "\<exists>g. run_game [tick_idle 1000, tick_idle 2000] game0 = Some g \<and> waitingForInput g
     \<and> 0 \<le> currentStep g \<and> currentStep g \<le> turn g \<and> turn g < 15
     \<and> melody_at (currentStep g) = Some 3
     \<and> (3::int) \<in> set melody \<and> nat (3 - 1) < length ledPins \<and> nat (3 - 1) < length notes_tbl"
proof -
  from game_bounds [of "[tick_idle 1000, tick_idle 2000]"] obtain g where
    g: "run_game [tick_idle 1000, tick_idle 2000] game0 = Some g"
    and scan: "\<forall>js pr. \<exists>g1. scanButtons js pr g = Some g1 \<and>
        (waitingForInput g1 \<longrightarrow>
           0 \<le> currentStep g1 \<and> currentStep g1 \<le> turn g1 \<and> turn g1 < 15
           \<and> (\<exists>n. melody_at (currentStep g1) = Some n))"
    and tbl: "\<forall>n \<in> set melody. 1 \<le> n \<and> n \<le> 6
        \<and> nat (n - 1) < length ledPins \<and> nat (n - 1) < length notes_tbl"
    by blast
  from reach_level0 g have w: "waitingForInput g" and c: "currentStep g = 0" by auto
  from scan [rule_format, of "[]" "\<lambda>_. False"] w
  have b: "0 \<le> currentStep g \<and> currentStep g \<le> turn g \<and> turn g < 15" by simp
  have m: "melody_at (currentStep g) = Some 3"
    using c by (simp add: melody_at_def melodyLength_15 melody_def)
  have s: "(3::int) \<in> set melody" by (simp add: melody_def)
  with tbl have "nat (3 - 1) < length ledPins \<and> nat (3 - 1) < length notes_tbl" by blast
  with g w b m s show ?thesis by blast
qed

text \<open>
  Claim C4. In every state of the game that awaits input, a press \<open>b\<close> that is not
  the expected note \<open>melody[currentStep]\<close> runs \<open>failSequence\<close> and resets the game:
  \<open>turn = 0\<close>, \<open>currentStep = 0\<close>, neither showing nor awaiting input. The same holds
  for the press as \<open>handleButtons\<close> delivers it (button \<open>i\<close> is note \<open>i + 1\<close>). The
  fail sequence is three rounds of all six LEDs on with the tone C, then all six off
  with the tone G, 400 ms each.
\<close>

theorem wrong_press_fails:
  assumes "game_inv g" and "waitingForInput g"
  shows "(melody_at (currentStep g) \<noteq> Some b \<longrightarrow>
           checkGameInput b g =
             Some (g\<lparr>turn := 0, currentStep := 0, showingSequence := False,
                     waitingForInput := False,
                     out := out g @ [Println ''Wrong! Try again.''] @ fail_events\<rparr>))
       \<and> (melody_at (currentStep g) \<noteq> Some (int i + 1) \<longrightarrow>
           handleButton i True g =
             Some (g\<lparr>turn := 0, currentStep := 0, showingSequence := False,
                     waitingForInput := False,
                     out := out g @ [DigitalWrite (ledPins ! i) True,
                                     Tone SPEAKER_PIN (notes_tbl ! i) 200,
                                     Println ''Wrong! Try again.''] @ fail_events\<rparr>))
       \<and> fail_events =
           Println ''FAIL! Restarting...'' # fail_round @ fail_round @ fail_round @
             [NoTone SPEAKER_PIN, Delay 1000]
       \<and> fail_round =
           [DigitalWrite (Dpin 11) True, DigitalWrite (Dpin 9) True, DigitalWrite (Dpin 5) True,
            DigitalWrite (Apin 0) True, DigitalWrite (Apin 2) True, DigitalWrite (Apin 4) True,
            Tone (Apin 5) 262 300, Delay 400,
            DigitalWrite (Dpin 11) False, DigitalWrite (Dpin 9) False, DigitalWrite (Dpin 5) False,
            DigitalWrite (Apin 0) False, DigitalWrite (Apin 2) False, DigitalWrite (Apin 4) False,
            Tone (Apin 5) 392 300, Delay 400]"
proof -
  from game_inv_awaiting [OF assms] obtain n where n: "melody_at (currentStep g) = Some n"
    by blast
  have a: "melody_at (currentStep g) \<noteq> Some b \<longrightarrow>
           checkGameInput b g =
             Some (g\<lparr>turn := 0, currentStep := 0, showingSequence := False,
                     waitingForInput := False,
                     out := out g @ [Println ''Wrong! Try again.''] @ fail_events\<rparr>)"
    using assms(2) n by (auto simp: checkGameInput_def failSequence_def emit_def)
  have b: "melody_at (currentStep g) \<noteq> Some (int i + 1) \<longrightarrow>
           handleButton i True g =
             Some (g\<lparr>turn := 0, currentStep := 0, showingSequence := False,
                     waitingForInput := False,
                     out := out g @ [DigitalWrite (ledPins ! i) True,
                                     Tone SPEAKER_PIN (notes_tbl ! i) 200,
                                     Println ''Wrong! Try again.''] @ fail_events\<rparr>)"
    using assms(2) n
    by (auto simp: handleButton_def checkGameInput_def failSequence_def emit_def Let_def)
  have c: "fail_events =
           Println ''FAIL! Restarting...'' # fail_round @ fail_round @ fail_round @
             [NoTone SPEAKER_PIN, Delay 1000]"
    by (simp add: fail_events_def numeral_3_eq_3)
  have d: "fail_round =
           [DigitalWrite (Dpin 11) True, DigitalWrite (Dpin 9) True, DigitalWrite (Dpin 5) True,
            DigitalWrite (Apin 0) True, DigitalWrite (Apin 2) True, DigitalWrite (Apin 4) True,
            Tone (Apin 5) 262 300, Delay 400,
            DigitalWrite (Dpin 11) False, DigitalWrite (Dpin 9) False, DigitalWrite (Dpin 5) False,
            DigitalWrite (Apin 0) False, DigitalWrite (Apin 2) False, DigitalWrite (Apin 4) False,
            Tone (Apin 5) 392 300, Delay 400]"
    by (simp add: fail_round_def all_leds_def ledPins_def upt_rec SPEAKER_PIN_def NOTE_C_def NOTE_G_def)
  from a b c d show ?thesis by blast
qed

text \<open>
  The spec's scenario for C4: at level 3 (four notes in play: 3, 3, 4, 5), with three
  notes entered, button 1 instead of button 5 loses all progress.
\<close>

theorem wrong_press_fails_witness:
  "game_inv (game0\<lparr>turn := 3, currentStep := 3, waitingForInput := True\<rparr>)
   \<and> waitingForInput (game0\<lparr>turn := 3, currentStep := 3, waitingForInput := True\<rparr>)
   \<and> melody_at (currentStep (game0\<lparr>turn := 3, currentStep := 3, waitingForInput := True\<rparr>))
       \<noteq> Some 1
   \<and> checkGameInput 1 (game0\<lparr>turn := 3, currentStep := 3, waitingForInput := True\<rparr>) =
       Some (game0\<lparr>turn := 0, currentStep := 0, waitingForInput := False,
               out := out game0 @ [Println ''Wrong! Try again.''] @ fail_events\<rparr>)"
proof -
  let ?g = "game0\<lparr>turn := 3, currentStep := 3, waitingForInput := True\<rparr>"
  have i: "game_inv ?g" by (simp add: game_inv_def game0_def)
  have w: "waitingForInput ?g" by simp
  have m: "melody_at (currentStep ?g) \<noteq> Some 1"
    by (simp add: melody_at_def melodyLength_15 melody_def)
  from wrong_press_fails [OF i w, of 1 0] m
  have "checkGameInput 1 ?g =
      Some (?g\<lparr>turn := 0, currentStep := 0, showingSequence := False,
                     waitingForInput := False,
                     out := out ?g @ [Println ''Wrong! Try again.''] @ fail_events\<rparr>)"
    by blast
  then have "checkGameInput 1 ?g =
       Some (game0\<lparr>turn := 0, currentStep := 0, waitingForInput := False,
               out := out game0 @ [Println ''Wrong! Try again.''] @ fail_events\<rparr>)"
    by (simp add: game0_def)
  with i w m show ?thesis by blast
qed

subsection \<open>Runs with correct presses\<close>


lemma game_loop_turn:
  assumes "handleButtons (buttons tk) g = Some g1" and "game_loop tk g = Some g2"
  shows "turn g2 = (if turn g1 \<ge> 15 then 0 else turn g1)"
proof -
  from assms obtain g' where r: "runMemoryGame (clock1 tk) (clock2 tk) g1 = Some g'"
    and e: "g2 = emit [Delay 50] g'"
    by (auto simp: game_loop_def split: option.splits)
  show ?thesis
  proof (cases "turn g1 \<ge> 15")
    case True
    with runMemoryGame_win [OF True, of "clock1 tk" "clock2 tk"] r e show ?thesis by auto
  next
    case False
    then have "turn g1 < 15" by simp
    from runMemoryGame_keeps_turn [OF this r] e False show ?thesis by simp
  qed
qed

lemma correct_run_climbs:
  "game_inv g \<Longrightarrow> correctRun tks g \<Longrightarrow> climbs (turn g) (levels tks g)"
proof (induction tks arbitrary: g)
  case Nil
  then show ?case by simp
next
  case (Cons tk tks)
  from Cons.prems(2) have c: "correctScan [0..<6] (buttons tk) g" by simp
  from scanButtons_level_step [OF Cons.prems(1) c] obtain g1 where
    g1: "handleButtons (buttons tk) g = Some g1" "level_step g g1" "game_inv g1"
    unfolding handleButtons_def by blast
  from game_loop_inv [OF Cons.prems(1), of tk] obtain g2 where
    g2: "game_loop tk g = Some g2" "game_inv g2" by blast
  from Cons.prems(2) g2(1) have "correctRun tks g2" by simp
  from Cons.IH [OF g2(2) this] have "climbs (turn g2) (levels tks g2)" .
  with game_loop_turn [OF g1(1) g2(1)]
  have "climbs (if turn g1 \<ge> 15 then 0 else turn g1) (levels tks g2)" by simp
  moreover from g1(2) have "turn g1 = turn g \<or> turn g1 = turn g + 1"
    by (auto simp: level_step_def)
  moreover from g1(3) have "turn g1 \<le> 15" by (simp add: game_inv_def)
  ultimately show ?case using g1(1) g2(1) by simp
qed

subsection \<open>A complete game\<close>

lemma game_inv_ctl: "ctl g = ctl h \<Longrightarrow> game_inv g = game_inv h"
  by (simp add: ctl_def game_inv_def)

lemma emit_emit: "emit es (emit es' g) = emit (es' @ es) g"
  by (simp add: emit_def)

lemma ctl_emit [simp]: "ctl (emit es g) = ctl g"
  by (simp add: ctl_def)

lemma scan_unpressed:
  "\<forall>i \<in> set js. \<not> pr i \<Longrightarrow> \<exists>es. scanButtons js pr g = Some (emit es g)"
proof (induction js arbitrary: g)
  case Nil
  have "emit [] g = g" by (simp add: emit_def)
  then show ?case by (metis scanButtons.simps(1))
next
  case (Cons i js)
  from Cons.prems have ni: "\<not> pr i" and rest: "\<forall>i \<in> set js. \<not> pr i" by simp_all
  from Cons.IH [OF rest, of "emit [DigitalWrite (ledPins ! i) False] g"]
  obtain es where "scanButtons js pr (emit [DigitalWrite (ledPins ! i) False] g)
      = Some (emit es (emit [DigitalWrite (ledPins ! i) False] g))" by blast
  then show ?case using ni by (auto simp: handleButton_def Let_def emit_emit)
qed

lemma correctScan_unpressed: "\<forall>i \<in> set js. \<not> pr i \<Longrightarrow> correctScan js pr g"
  by (induction js arbitrary: g) (auto simp: handleButton_def Let_def)

lemma scanButtons_append:
  "scanButtons (xs @ ys) pr g =
     (case scanButtons xs pr g of None \<Rightarrow> None | Some g' \<Rightarrow> scanButtons ys pr g')"
  by (induction xs arbitrary: g) (auto split: option.splits)

lemma correctScan_append:
  "correctScan (xs @ ys) pr g \<longleftrightarrow>
     correctScan xs pr g
     \<and> (case scanButtons xs pr g of None \<Rightarrow> True | Some g' \<Rightarrow> correctScan ys pr g')"
  by (induction xs arbitrary: g) (auto split: option.splits)

text \<open>An iteration without a button leaves the game to \<open>runMemoryGame\<close>.\<close>

lemma idle_scan:
  "\<exists>g1. handleButtons (\<lambda>_. False) g = Some g1 \<and> ctl g1 = ctl g
        \<and> correctScan [0..<6] (\<lambda>_. False) g"
proof -
  from scan_unpressed [of "[0..<6]" "\<lambda>_. False" g] obtain es where
    "scanButtons [0..<6] (\<lambda>_. False) g = Some (emit es g)" by auto
  moreover have "correctScan [0..<6] (\<lambda>_. False) g"
    by (rule correctScan_unpressed) simp
  ultimately show ?thesis by (auto simp: handleButtons_def)
qed

text \<open>An iteration that presses the expected button and nothing else.\<close>

lemma press_scan:
  assumes inv: "game_inv g" and w: "waitingForInput g"
    and m: "melody_at (currentStep g) = Some (int k + 1)" and k: "k < 6"
  shows "\<exists>g1. handleButtons (\<lambda>i. i = k) g = Some g1
        \<and> ctl g1 = (if currentStep g < turn g
                     then (turn g, currentStep g + 1, showingSequence g, True, lastActionTime g)
                     else (turn g + 1, currentStep g + 1, showingSequence g, False,
                           lastActionTime g))
        \<and> correctScan [0..<6] (\<lambda>i. i = k) g"
proof -
  let ?pr = "\<lambda>i. i = k"
  have "[0..<k + (6 - k)] = [0..<k] @ [k..<k + (6 - k)]"
    by (rule upt_add_eq_append) simp
  moreover have "[k..<6] = k # [Suc k..<6]" using k by (rule upt_conv_Cons)
  ultimately have split: "[0..<6] = [0..<k] @ [k] @ [Suc k..<6]" using k by simp
  from scan_unpressed [of "[0..<k]" ?pr g] obtain es where
    a: "scanButtons [0..<k] ?pr g = Some (emit es g)" by auto
  have ca: "correctScan [0..<k] ?pr g" by (rule correctScan_unpressed) simp
  define g2 where "g2 = emit [Tone SPEAKER_PIN (notes_tbl ! k) 200]
               (emit [DigitalWrite (ledPins ! k) True] (emit es g))"
  have i2: "game_inv g2" and w2: "waitingForInput g2"
    and m2: "melody_at (currentStep g2) = Some (int k + 1)"
    using inv w m by (simp_all add: g2_def)
  define g3 where "g3 = (if currentStep g2 < turn g2
           then (emit [Println ''Correct!''] g2)\<lparr>currentStep := currentStep g2 + 1\<rparr>
           else (emit [Println ''Correct!'', Println ''Good! Next level...'', Delay 1000] g2)
                  \<lparr>currentStep := currentStep g2 + 1, turn := turn g2 + 1,
                    waitingForInput := False\<rparr>)"
  have "handleButton k True (emit es g) = checkGameInput (int k + 1) g2"
    using w by (simp add: handleButton_def Let_def g2_def)
  with checkGameInput_correct [OF i2 w2 m2]
  have b: "handleButton k True (emit es g) = Some g3" by (simp add: g3_def)
  have cb: "correctScan [k] ?pr (emit es g)" using w m b by simp
  from scan_unpressed [of "[Suc k..<6]" ?pr g3] obtain es' where
    c: "scanButtons [Suc k..<6] ?pr g3 = Some (emit es' g3)" by auto
  have cc: "correctScan [Suc k..<6] ?pr g3" by (rule correctScan_unpressed) simp
  have r: "handleButtons ?pr g = Some (emit es' g3)"
    unfolding handleButtons_def by (subst split) (simp add: scanButtons_append a b c)
  have "correctScan (k # [Suc k..<6]) ?pr (emit es g)" using w m b cc by simp
  then have cs: "correctScan [0..<6] ?pr g"
    by (subst split) (simp add: correctScan_append a ca del: correctScan.simps(2))
  have "ctl (emit es' g3) = (if currentStep g < turn g
                     then (turn g, currentStep g + 1, showingSequence g, True, lastActionTime g)
                     else (turn g + 1, currentStep g + 1, showingSequence g, False,
                           lastActionTime g))"
    using w by (simp add: ctl_def g3_def g2_def)
  with r cs show ?thesis by blast
qed

lemma played_Nil: "played [] g g []"
  by (simp add: played_def)

lemma played_Cons:
  assumes "handleButtons (buttons tk) g = Some g1" and "turn g1 = lv"
    and "correctScan [0..<6] (buttons tk) g" and "game_loop tk g = Some g2"
    and "played tks g2 g3 lvs"
  shows "played (tk # tks) g g3 (lv # lvs)"
  using assms by (simp add: played_def)

lemma played_append:
  "played xs g g1 l1 \<Longrightarrow> played ys g1 g2 l2 \<Longrightarrow> played (xs @ ys) g g2 (l1 @ l2)"
proof (induction xs arbitrary: g l1)
  case Nil
  then show ?case by (simp add: played_def)
next
  case (Cons tk xs)
  from Cons.prems(1) obtain ga gb where
    a: "handleButtons (buttons tk) g = Some ga" "game_loop tk g = Some gb"
    by (auto simp: played_def game_loop_def split: option.splits)
  with Cons.prems(1) have c: "correctScan [0..<6] (buttons tk) g"
    and p: "played xs gb g1 (tl l1)" and l: "l1 = turn ga # tl l1"
    by (auto simp: played_def)
  from Cons.IH [OF p Cons.prems(2)] have "played (xs @ ys) gb g2 (tl l1 @ l2)" .
  from played_Cons [OF a(1) refl c a(2) this] l show ?case by (metis append_Cons)
qed

text \<open>The kinds of iteration in a correct game.\<close>

lemma late_iff:
  assumes "n < 4294967296"
  shows "STEP_DELAY < la + word_of_nat n - la \<longleftrightarrow> 800 < n"
proof -
  have "unat (word_of_nat n :: 32 word) = n"
    using assms by (simp add: unat_of_nat take_bit_nat_eq_self)
  then show ?thesis
    by (simp add: STEP_DELAY_def word_less_nat_alt)
qed

lemma quiet_tick_wait:
  assumes sh: "showingSequence g" and nw: "\<not> waitingForInput g" and t: "turn g < 15"
    and early: "\<not> STEP_DELAY < T - lastActionTime g"
  shows "\<exists>g'. played [quiet_tick T] g g' [turn g] \<and> ctl g' = ctl g"
proof -
  let ?tk = "quiet_tick T"
  from idle_scan [of g] obtain g1 where
    g1: "handleButtons (buttons ?tk) g = Some g1" "ctl g1 = ctl g"
      "correctScan [0..<6] (buttons ?tk) g"
    by (auto simp: quiet_tick_def)
  from g1(2) have f: "turn g1 = turn g" "currentStep g1 = currentStep g"
    "showingSequence g1 = showingSequence g" "waitingForInput g1 = waitingForInput g"
    "lastActionTime g1 = lastActionTime g"
    by (simp_all add: ctl_def)
  have "runMemoryGame T (T + 300) g1 = Some g1"
    using f sh nw t early by (simp add: runMemoryGame_def melodyLength_15 Let_def)
  then have g2: "runMemoryGame (clock1 ?tk) (clock2 ?tk) g1 = Some g1"
    by (simp add: quiet_tick_def)
  from g1(1) g2 have loop: "game_loop ?tk g = Some (emit [Delay 50] g1)"
    by (simp add: game_loop_def)
  from played_Cons [OF g1(1) f(1) g1(3) loop played_Nil] g1(2) show ?thesis
    by (metis ctl_emit)
qed

lemma quiet_tick_note:
  assumes inv: "game_inv g" and nw: "\<not> waitingForInput g" and t: "turn g < 15"
    and c: "c = (if showingSequence g then currentStep g else 0)" and le: "c \<le> turn g"
    and late: "STEP_DELAY < T - lastActionTime g"
  shows "\<exists>g'. played [quiet_tick T] g g' [turn g]
          \<and> ctl g' = (turn g, c + 1, True, False, T + 300)"
proof -
  let ?tk = "quiet_tick T"
  from idle_scan [of g] obtain g1 where
    g1: "handleButtons (buttons ?tk) g = Some g1" "ctl g1 = ctl g"
      "correctScan [0..<6] (buttons ?tk) g"
    by (auto simp: quiet_tick_def)
  from g1(2) have f: "turn g1 = turn g" "currentStep g1 = currentStep g"
    "showingSequence g1 = showingSequence g" "waitingForInput g1 = waitingForInput g"
    "lastActionTime g1 = lastActionTime g"
    by (simp_all add: ctl_def)
  have c0: "0 \<le> c" using inv c by (simp add: game_inv_def)
  with le t obtain n where n: "melody_at c = Some n"
    using melody_at_in_bounds [of c] by auto
  have "\<exists>g2. runMemoryGame T (T + 300) g1 = Some g2
          \<and> ctl g2 = (turn g, c + 1, True, False, T + 300)"
    using f nw t c le n late
    by (auto simp: runMemoryGame_def melodyLength_15 Let_def ctl_def)
  then obtain g2 where
    g2: "runMemoryGame (clock1 ?tk) (clock2 ?tk) g1 = Some g2"
      "ctl g2 = (turn g, c + 1, True, False, T + 300)"
    by (auto simp: quiet_tick_def)
  from g1(1) g2(1) have loop: "game_loop ?tk g = Some (emit [Delay 50] g2)"
    by (simp add: game_loop_def)
  from played_Cons [OF g1(1) f(1) g1(3) loop played_Nil] g2(2) show ?thesis
    by (metis ctl_emit)
qed

lemma quiet_tick_turn:
  assumes sh: "showingSequence g" and t: "turn g < 15"
    and c: "currentStep g = turn g + 1" and late: "STEP_DELAY < T - lastActionTime g"
  shows "\<exists>g'. played [quiet_tick T] g g' [turn g]
          \<and> ctl g' = (turn g, 0, False, True, lastActionTime g)"
proof -
  let ?tk = "quiet_tick T"
  from idle_scan [of g] obtain g1 where
    g1: "handleButtons (buttons ?tk) g = Some g1" "ctl g1 = ctl g"
      "correctScan [0..<6] (buttons ?tk) g"
    by (auto simp: quiet_tick_def)
  from g1(2) have f: "turn g1 = turn g" "currentStep g1 = currentStep g"
    "showingSequence g1 = showingSequence g" "waitingForInput g1 = waitingForInput g"
    "lastActionTime g1 = lastActionTime g"
    by (simp_all add: ctl_def)
  have "\<exists>g2. runMemoryGame T (T + 300) g1 = Some g2
          \<and> ctl g2 = (turn g, 0, False, True, lastActionTime g)"
    using f sh t c late
    by (auto simp: runMemoryGame_def melodyLength_15 Let_def ctl_def)
  then obtain g2 where
    g2: "runMemoryGame (clock1 ?tk) (clock2 ?tk) g1 = Some g2"
      "ctl g2 = (turn g, 0, False, True, lastActionTime g)"
    by (auto simp: quiet_tick_def)
  from g1(1) g2(1) have loop: "game_loop ?tk g = Some (emit [Delay 50] g2)"
    by (simp add: game_loop_def)
  from played_Cons [OF g1(1) f(1) g1(3) loop played_Nil] g2(2) show ?thesis
    by (metis ctl_emit)
qed

text \<open>
  The press of the expected button: before the last note of the prefix it advances the
  step; the last one completes the level, and \<open>runMemoryGame\<close>, late by then, starts to
  show the next level with its first note, or plays the win sequence after level 14.
\<close>

lemma button_tick_step:
  assumes inv: "game_inv g" and w: "waitingForInput g"
    and lt: "currentStep g < turn g"
  shows "\<exists>g'. played [button_tick (nat (melody ! nat (currentStep g) - 1)) T] g g' [turn g]
          \<and> ctl g' = (turn g, currentStep g + 1, False, True, lastActionTime g)"
proof -
  let ?b = "melody ! nat (currentStep g)"
  let ?k = "nat (?b - 1)"
  let ?tk = "button_tick ?k T"
  from game_inv_awaiting [OF inv w] obtain n where
    b: "0 \<le> currentStep g" "currentStep g \<le> turn g" "turn g < 15"
    and n: "melody_at (currentStep g) = Some n" "1 \<le> n" "n \<le> 6"
    by blast
  from n(1) b have nb: "n = ?b" by (simp add: melody_at_def melodyLength_15)
  with n have m: "melody_at (currentStep g) = Some (int ?k + 1)" and k: "?k < 6" by simp_all
  from inv w have ns: "\<not> showingSequence g" by (auto simp: game_inv_def)
  from press_scan [OF inv w m k] ns lt obtain g1 where
    g1: "handleButtons (buttons ?tk) g = Some g1"
      "ctl g1 = (turn g, currentStep g + 1, False, True, lastActionTime g)"
      "correctScan [0..<6] (buttons ?tk) g"
    by (auto simp: button_tick_def)
  have lv: "turn g1 = turn g" using g1(2) by (simp add: ctl_def)
  have "runMemoryGame T (T + 300) g1 = Some g1"
    using g1(2) b by (simp add: runMemoryGame_def melodyLength_15 Let_def ctl_def)
  then have g2: "runMemoryGame (clock1 ?tk) (clock2 ?tk) g1 = Some g1"
    by (simp add: button_tick_def)
  from g1(1) g2 have loop: "game_loop ?tk g = Some (emit [Delay 50] g1)"
    by (simp add: game_loop_def)
  from played_Cons [OF g1(1) lv g1(3) loop played_Nil] g1(2) show ?thesis
    by (metis ctl_emit)
qed

lemma button_tick_last:
  assumes inv: "game_inv g" and w: "waitingForInput g"
    and eq: "currentStep g = turn g" and late: "STEP_DELAY < T - lastActionTime g"
  shows "\<exists>g'. played [button_tick (nat (melody ! nat (currentStep g) - 1)) T] g g' [turn g + 1]
          \<and> (if turn g < 14
              then ctl g' = (turn g + 1, 1, True, False, T + 300)
              else ctl g' = (0, 0, False, False, lastActionTime g)
                   \<and> (\<exists>o1. out g' = o1 @ win_events @ [Delay 50]))"
proof -
  let ?b = "melody ! nat (currentStep g)"
  let ?k = "nat (?b - 1)"
  let ?tk = "button_tick ?k T"
  from game_inv_awaiting [OF inv w] obtain n where
    b: "0 \<le> currentStep g" "currentStep g \<le> turn g" "turn g < 15"
    and n: "melody_at (currentStep g) = Some n" "1 \<le> n" "n \<le> 6"
    by blast
  from n(1) b have nb: "n = ?b" by (simp add: melody_at_def melodyLength_15)
  with n have m: "melody_at (currentStep g) = Some (int ?k + 1)" and k: "?k < 6" by simp_all
  from inv w have ns: "\<not> showingSequence g" by (auto simp: game_inv_def)
  from press_scan [OF inv w m k] ns eq obtain g1 where
    g1: "handleButtons (buttons ?tk) g = Some g1"
      "ctl g1 = (turn g + 1, currentStep g + 1, False, False, lastActionTime g)"
      "correctScan [0..<6] (buttons ?tk) g"
    by (auto simp: button_tick_def)
  have lv: "turn g1 = turn g + 1" using g1(2) by (simp add: ctl_def)
  have m0: "\<exists>n0. melody_at 0 = Some n0" using melody_at_in_bounds [of 0] by auto
  have "\<exists>g2. runMemoryGame T (T + 300) g1 = Some g2
          \<and> (if turn g < 14
              then ctl g2 = (turn g + 1, 1, True, False, T + 300)
              else ctl g2 = (0, 0, False, False, lastActionTime g)
                   \<and> out g2 = out g1 @ win_events)"
  proof (cases "turn g < 14")
    case True
    with g1(2) b late m0 show ?thesis
      by (auto simp: runMemoryGame_def melodyLength_15 Let_def ctl_def)
  next
    case False
    with g1(2) b have "turn g1 \<ge> 15" and "lastActionTime g1 = lastActionTime g"
      by (simp_all add: ctl_def)
    with runMemoryGame_win [OF this(1), of T "T + 300"] False
    show ?thesis by (simp add: ctl_def)
  qed
  then obtain g2 where
    g2: "runMemoryGame (clock1 ?tk) (clock2 ?tk) g1 = Some g2"
      "if turn g < 14
              then ctl g2 = (turn g + 1, 1, True, False, T + 300)
              else ctl g2 = (0, 0, False, False, lastActionTime g)
                   \<and> out g2 = out g1 @ win_events"
    by (auto simp: button_tick_def)
  from g1(1) g2(1) have loop: "game_loop ?tk g = Some (emit [Delay 50] g2)"
    by (simp add: game_loop_def)
  have "if turn g < 14
              then ctl (emit [Delay 50] g2) = (turn g + 1, 1, True, False, T + 300)
              else ctl (emit [Delay 50] g2) = (0, 0, False, False, lastActionTime g)
                   \<and> (\<exists>o1. out (emit [Delay 50] g2) = o1 @ win_events @ [Delay 50])"
    using g2(2) by (auto split: if_splits)
  with played_Cons [OF g1(1) lv g1(3) loop played_Nil] show ?thesis by blast
qed

text \<open>The phases of a level.\<close>

lemma waits_played:
  "showingSequence g \<Longrightarrow> \<not> waitingForInput g \<Longrightarrow> turn g < 15 \<Longrightarrow>
   \<forall>tk \<in> set tks. \<exists>T. tk = quiet_tick T \<and> \<not> STEP_DELAY < T - lastActionTime g \<Longrightarrow>
     \<exists>g'. played tks g g' (replicate (length tks) (turn g)) \<and> ctl g' = ctl g"
proof (induction tks arbitrary: g)
  case Nil
  then show ?case using played_Nil by auto
next
  case (Cons tk tks)
  from Cons.prems(4) obtain T where
    T: "tk = quiet_tick T" "\<not> STEP_DELAY < T - lastActionTime g" by auto
  from quiet_tick_wait [OF Cons.prems(1,2,3) T(2)] T(1) obtain g1 where
    g1: "played [tk] g g1 [turn g]" "ctl g1 = ctl g" by blast
  from g1(2) have f: "turn g1 = turn g" "showingSequence g1 = showingSequence g"
    "waitingForInput g1 = waitingForInput g" "lastActionTime g1 = lastActionTime g"
    by (simp_all add: ctl_def)
  have "\<exists>g'. played tks g1 g' (replicate (length tks) (turn g1)) \<and> ctl g' = ctl g1"
    using Cons.prems f by (intro Cons.IH) simp_all
  then obtain g' where
    g': "played tks g1 g' (replicate (length tks) (turn g1))" "ctl g' = ctl g1" by blast
  from played_append [OF g1(1) g'(1)] f(1) g'(2) g1(2) show ?case by auto
qed

lemma wait_ticks_played:
  assumes "showingSequence g" and "\<not> waitingForInput g" and "turn g < 15"
  shows "\<exists>g'. played (wait_ticks (lastActionTime g)) g g' (replicate 16 (turn g))
          \<and> ctl g' = ctl g"
proof -
  have "\<exists>T. tk = quiet_tick T \<and> \<not> STEP_DELAY < T - lastActionTime g"
    if "tk \<in> set (wait_ticks (lastActionTime g))" for tk
  proof -
    from that obtain j where
      j: "j < 17" "tk = quiet_tick (lastActionTime g + word_of_nat (50 * j))"
      by (auto simp: wait_ticks_def)
    then have "50 * j < 4294967296" by simp
    from late_iff [OF this, of "lastActionTime g"] j(1)
    have "\<not> STEP_DELAY < lastActionTime g + word_of_nat (50 * j) - lastActionTime g" by simp
    with j(2) show ?thesis by blast
  qed
  then have "\<forall>tk \<in> set (wait_ticks (lastActionTime g)).
      \<exists>T. tk = quiet_tick T \<and> \<not> STEP_DELAY < T - lastActionTime g" by blast
  from waits_played [OF assms this] show ?thesis by (simp add: wait_ticks_def)
qed

lemma late_850: "STEP_DELAY < la + 850 - la"
  using late_iff [of 850 la] by simp

lemma show_phase:
  "game_inv g \<Longrightarrow> showingSequence g \<Longrightarrow> turn g = int t \<Longrightarrow> t < 15 \<Longrightarrow>
   currentStep g + int n = int t + 1 \<Longrightarrow>
     \<exists>g' lvs. played (show_ticks (lastActionTime g) n) g g' lvs \<and> set lvs = {int t}
        \<and> ctl g' = (int t, 0, False, True, lastActionTime g + 1150 * word_of_nat n)"
proof (induction n arbitrary: g)
  case 0
  from "0.prems" have nw: "\<not> waitingForInput g" and lt: "turn g < 15"
    by (auto simp: game_inv_def)
  from wait_ticks_played [OF "0.prems"(2) nw lt] obtain g1 where
    g1: "played (wait_ticks (lastActionTime g)) g g1 (replicate 16 (turn g))"
      "ctl g1 = ctl g" by blast
  from g1(2) have f: "turn g1 = turn g" "currentStep g1 = currentStep g"
    "showingSequence g1" "lastActionTime g1 = lastActionTime g"
    using "0.prems"(2) by (simp_all add: ctl_def)
  have c: "currentStep g1 = turn g1 + 1" using f "0.prems"(3,5) by simp
  have late: "STEP_DELAY < lastActionTime g + 850 - lastActionTime g1"
    using f(4) late_850 by simp
  from quiet_tick_turn [OF f(3) _ c late] f lt obtain g' where
    g': "played [quiet_tick (lastActionTime g + 850)] g1 g' [turn g]"
      "ctl g' = (turn g, 0, False, True, lastActionTime g)" by auto
  from played_append [OF g1(1) g'(1)]
  have "played (show_ticks (lastActionTime g) 0) g g' (replicate 16 (turn g) @ [turn g])"
    by (simp add: gap_ticks_def)
  moreover have "set (replicate 16 (turn g) @ [turn g]) = {int t}"
    using "0.prems"(3) by auto
  moreover have "ctl g' = (int t, 0, False, True, lastActionTime g + 1150 * word_of_nat 0)"
    using g'(2) "0.prems"(3) by simp
  ultimately show ?case by blast
next
  case (Suc n)
  from Suc.prems have nw: "\<not> waitingForInput g" and lt: "turn g < 15"
    by (auto simp: game_inv_def)
  from wait_ticks_played [OF Suc.prems(2) nw lt] obtain g1 where
    g1: "played (wait_ticks (lastActionTime g)) g g1 (replicate 16 (turn g))"
      "ctl g1 = ctl g" by blast
  from g1(2) have f: "turn g1 = turn g" "currentStep g1 = currentStep g"
    "showingSequence g1" "\<not> waitingForInput g1" "lastActionTime g1 = lastActionTime g"
    using Suc.prems(2) nw by (simp_all add: ctl_def)
  have i1: "game_inv g1" using game_inv_ctl [OF g1(2)] Suc.prems(1) by simp
  have le: "currentStep g1 \<le> turn g1" using f Suc.prems(3,5) by simp
  have late: "STEP_DELAY < lastActionTime g + 850 - lastActionTime g1"
    using f(5) late_850 by simp
  from quiet_tick_note [OF i1 f(4) _ _ le late, of ] f lt obtain g2 where
    g2: "played [quiet_tick (lastActionTime g + 850)] g1 g2 [turn g]"
      "ctl g2 = (turn g, currentStep g + 1, True, False, lastActionTime g + 850 + 300)"
    by auto
  from g2(2) have f2: "turn g2 = int t" "currentStep g2 = currentStep g + 1"
    "showingSequence g2" "\<not> waitingForInput g2" "lastActionTime g2 = lastActionTime g + 1150"
    using Suc.prems(3) by (simp_all add: ctl_def)
  have i2: "game_inv g2"
    using f2 Suc.prems(1,3,4,5) by (auto simp: game_inv_def)
  have e2: "currentStep g2 + int n = int t + 1" using f2 Suc.prems(5) by simp
  from Suc.IH [OF i2 f2(3) f2(1) Suc.prems(4) e2] obtain g' lvs where
    g': "played (show_ticks (lastActionTime g2) n) g2 g' lvs" "set lvs = {int t}"
      "ctl g' = (int t, 0, False, True, lastActionTime g2 + 1150 * word_of_nat n)"
    by blast
  from played_append [OF played_append [OF g1(1) g2(1)] g'(1)] f2(5)
  have "played (show_ticks (lastActionTime g) (Suc n)) g g'
      ((replicate 16 (turn g) @ [turn g]) @ lvs)"
    by (simp add: gap_ticks_def)
  moreover have "set ((replicate 16 (turn g) @ [turn g]) @ lvs) = {int t}"
    using g'(2) Suc.prems(3) by auto
  moreover from g'(3) f2(5)
  have "ctl g' = (int t, 0, False, True, lastActionTime g + 1150 * word_of_nat (Suc n))"
    by (simp add: algebra_simps)
  ultimately show ?case by blast
qed

lemma enter_phase:
  "game_inv g \<Longrightarrow> waitingForInput g \<Longrightarrow> turn g = int t \<Longrightarrow>
   n = nat (turn g - currentStep g) \<Longrightarrow> d + 50 * n + 1000 < 4294967296 \<Longrightarrow>
     \<exists>g' lvs. played (enter_ticks (lastActionTime g + word_of_nat d) (prefix_at g)) g g' lvs
        \<and> set lvs \<subseteq> {int t, int t + 1} \<and> int t + 1 \<in> set lvs
        \<and> (if t < 14
            then ctl g' = (int t + 1, 1, True, False,
                           lastActionTime g + word_of_nat (d + 50 * n + 1300))
            else ctl g' = (0, 0, False, False, lastActionTime g)
                 \<and> (\<exists>o1. out g' = o1 @ win_events @ [Delay 50]))"
proof (induction n arbitrary: g d)
  case 0
  then have b: "0 \<le> currentStep g" "currentStep g \<le> turn g" "turn g < 15"
    by (auto simp: game_inv_def)
  with 0 have eq: "currentStep g = turn g" by simp
  have p: "prefix_at g = [melody ! nat (currentStep g)]"
    using prefix_at_Cons [OF b] eq b by (simp add: melody_def)
  have "STEP_DELAY < lastActionTime g + word_of_nat (d + 1000) - lastActionTime g"
    using late_iff [of "d + 1000" "lastActionTime g"] "0.prems"(5) by simp
  then have late: "STEP_DELAY < lastActionTime g + word_of_nat d + 1000 - lastActionTime g"
    by simp
  from button_tick_last [OF "0.prems"(1,2) eq late] "0.prems"(3) obtain g' where
    g': "played [button_tick (nat (melody ! nat (currentStep g) - 1))
            (lastActionTime g + word_of_nat d + 1000)] g g' [int t + 1]"
      "if t < 14
       then ctl g' = (int t + 1, 1, True, False, lastActionTime g + word_of_nat d + 1000 + 300)
       else ctl g' = (0, 0, False, False, lastActionTime g)
            \<and> (\<exists>o1. out g' = o1 @ win_events @ [Delay 50])"
    by auto
  have eqt: "lastActionTime g + word_of_nat d + 1000 + 300
      = lastActionTime g + word_of_nat (d + 50 * 0 + 1300)" by simp
  have pl: "played (enter_ticks (lastActionTime g + word_of_nat d) (prefix_at g)) g g'
      [int t + 1]"
    using g'(1) p by simp
  have st: "set [int t + 1] \<subseteq> {int t, int t + 1}" "int t + 1 \<in> set [int t + 1]"
    by simp_all
  have fin: "if t < 14
       then ctl g' = (int t + 1, 1, True, False,
                      lastActionTime g + word_of_nat (d + 50 * 0 + 1300))
       else ctl g' = (0, 0, False, False, lastActionTime g)
            \<and> (\<exists>o1. out g' = o1 @ win_events @ [Delay 50])"
    using g'(2) eqt by (simp split: if_splits)
  from pl st fin show ?case by blast
next
  case (Suc n)
  then have b: "0 \<le> currentStep g" "currentStep g \<le> turn g" "turn g < 15"
    by (auto simp: game_inv_def)
  from Suc.prems(4) have lt: "currentStep g < turn g" by simp
  from button_tick_step [OF Suc.prems(1,2) lt, of "lastActionTime g + word_of_nat d"]
  obtain g1 where
    g1: "played [button_tick (nat (melody ! nat (currentStep g) - 1))
            (lastActionTime g + word_of_nat d)] g g1 [turn g]"
      "ctl g1 = (turn g, currentStep g + 1, False, True, lastActionTime g)"
    by auto
  from g1(2) have f: "turn g1 = int t" "currentStep g1 = currentStep g + 1"
    "\<not> showingSequence g1" "waitingForInput g1" "lastActionTime g1 = lastActionTime g"
    using Suc.prems(3) by (simp_all add: ctl_def)
  have i1: "game_inv g1" using f b lt Suc.prems(3) by (auto simp: game_inv_def)
  have n1: "n = nat (turn g1 - currentStep g1)" using f Suc.prems(3,4) by simp
  have d1: "(d + 50) + 50 * n + 1000 < 4294967296" using Suc.prems(5) by simp
  have b1: "0 \<le> currentStep g1" "currentStep g1 \<le> turn g1" "turn g1 < 15"
    using f b lt Suc.prems(3) by simp_all
  have p: "prefix_at g = melody ! nat (currentStep g) # prefix_at g1"
    using prefix_at_Cons [OF b] b f Suc.prems(3) by (simp add: prefix_at_def nat_add_distrib)
  from prefix_at_Cons [OF b1] obtain c cs where p1: "prefix_at g1 = c # cs" by blast
  from Suc.IH [OF i1 f(4) f(1) n1 d1] obtain g' lvs where
    g': "played (enter_ticks (lastActionTime g1 + word_of_nat (d + 50)) (prefix_at g1)) g1 g' lvs"
      "set lvs \<subseteq> {int t, int t + 1}" "int t + 1 \<in> set lvs"
      "if t < 14
       then ctl g' = (int t + 1, 1, True, False,
                      lastActionTime g1 + word_of_nat (d + 50 + 50 * n + 1300))
       else ctl g' = (0, 0, False, False, lastActionTime g1)
            \<and> (\<exists>o1. out g' = o1 @ win_events @ [Delay 50])"
    by blast
  have "enter_ticks (lastActionTime g + word_of_nat d) (prefix_at g) =
      button_tick (nat (melody ! nat (currentStep g) - 1)) (lastActionTime g + word_of_nat d)
        # enter_ticks (lastActionTime g1 + word_of_nat (d + 50)) (prefix_at g1)"
    using p p1 f(5) by (simp add: add.assoc)
  with played_append [OF g1(1) g'(1)]
  have "played (enter_ticks (lastActionTime g + word_of_nat d) (prefix_at g)) g g'
      (turn g # lvs)" by simp
  moreover have "set (turn g # lvs) \<subseteq> {int t, int t + 1}" "int t + 1 \<in> set (turn g # lvs)"
    using g'(2,3) Suc.prems(3) by auto
  moreover have "d + 50 + 50 * n + 1300 = d + 50 * Suc n + 1300" by simp
  ultimately show ?case using g'(4) f(5) by (metis (no_types, lifting))
qed

lemma level_played:
  assumes inv: "game_inv g" and sh: "showingSequence g" and t: "turn g = int t" "t < 15"
    and c: "currentStep g = 1"
  shows "\<exists>g' lvs. played (level_ticks t (lastActionTime g)) g g' lvs
        \<and> set lvs = {int t, int t + 1}
        \<and> (if t < 14
            then ctl g' = (int t + 1, 1, True, False,
                           lastActionTime g + 1200 * word_of_nat t + 2200)
            else ctl g' = (0, 0, False, False, lastActionTime g + 1150 * word_of_nat t)
                 \<and> (\<exists>o1. out g' = o1 @ win_events @ [Delay 50]))"
proof -
  have e: "currentStep g + int t = int t + 1" using c by simp
  from show_phase [OF inv sh t e] obtain g1 l1 where
    g1: "played (show_ticks (lastActionTime g) t) g g1 l1" "set l1 = {int t}"
      "ctl g1 = (int t, 0, False, True, lastActionTime g + 1150 * word_of_nat t)"
    by blast
  from g1(3) have f: "turn g1 = int t" "currentStep g1 = 0" "\<not> showingSequence g1"
    "waitingForInput g1" "lastActionTime g1 = lastActionTime g + 1150 * word_of_nat t"
    by (simp_all add: ctl_def)
  have i1: "game_inv g1" using f t by (simp add: game_inv_def)
  have p: "prefix_at g1 = take (t + 1) melody" using f by (simp add: prefix_at_def)
  have n: "t = nat (turn g1 - currentStep g1)" using f by simp
  have d: "900 + 50 * t + 1000 < (4294967296::nat)" using t(2) by simp
  from enter_phase [OF i1 f(4) f(1) n d] obtain g' l2 where
    g': "played (enter_ticks (lastActionTime g1 + word_of_nat 900) (prefix_at g1)) g1 g' l2"
      "set l2 \<subseteq> {int t, int t + 1}" "int t + 1 \<in> set l2"
      "if t < 14
       then ctl g' = (int t + 1, 1, True, False,
                      lastActionTime g1 + word_of_nat (900 + 50 * t + 1300))
       else ctl g' = (0, 0, False, False, lastActionTime g1)
            \<and> (\<exists>o1. out g' = o1 @ win_events @ [Delay 50])"
    by blast
  from played_append [OF g1(1) g'(1)] p f(5)
  have "played (level_ticks t (lastActionTime g)) g g' (l1 @ l2)"
    by (simp add: level_ticks_def)
  moreover have "set (l1 @ l2) = {int t, int t + 1}" using g1(2) g'(2,3) by auto
  moreover have "lastActionTime g1 + word_of_nat (900 + 50 * t + 1300)
      = lastActionTime g + 1200 * word_of_nat t + 2200"
    using f(5) by (simp add: algebra_simps)
  ultimately show ?thesis using g'(4) f(5) by (metis (no_types, lifting))
qed

lemma levels_played:
  "game_inv g \<Longrightarrow> showingSequence g \<Longrightarrow> turn g = int t \<Longrightarrow> t + Suc k = 15 \<Longrightarrow>
   currentStep g = 1 \<Longrightarrow>
     \<exists>g' lvs. played (play_ticks (Suc k) t (lastActionTime g)) g g' lvs
        \<and> set lvs = {int t..15}
        \<and> turn g' = 0 \<and> currentStep g' = 0 \<and> \<not> showingSequence g' \<and> \<not> waitingForInput g'
        \<and> (\<exists>o1. out g' = o1 @ win_events @ [Delay 50])"
proof (induction k arbitrary: g t)
  case 0
  then have t: "t = 14" by simp
  from level_played [OF "0.prems"(1,2,3) _ "0.prems"(5)] t obtain g' lvs where
    "played (level_ticks t (lastActionTime g)) g g' lvs" "set lvs = {int t, int t + 1}"
    "ctl g' = (0, 0, False, False, lastActionTime g + 1150 * word_of_nat t)"
    "\<exists>o1. out g' = o1 @ win_events @ [Delay 50]"
    by auto
  moreover have "{int t, int t + 1} = {int t..15}" using t by auto
  ultimately show ?case using played_append [OF _ played_Nil] by (auto simp: ctl_def)
next
  case (Suc k)
  then have t: "t < 14" by simp
  from level_played [OF Suc.prems(1,2,3) _ Suc.prems(5)] t obtain g1 l1 where
    g1: "played (level_ticks t (lastActionTime g)) g g1 l1" "set l1 = {int t, int t + 1}"
      "ctl g1 = (int t + 1, 1, True, False, lastActionTime g + 1200 * word_of_nat t + 2200)"
    by auto
  from g1(3) have f: "turn g1 = int (Suc t)" "currentStep g1 = 1" "showingSequence g1"
    "\<not> waitingForInput g1"
    "lastActionTime g1 = lastActionTime g + 1200 * word_of_nat t + 2200"
    by (simp_all add: ctl_def)
  have i1: "game_inv g1" using f t by (simp add: game_inv_def)
  have k1: "Suc t + Suc k = 15" using Suc.prems(4) by simp
  from Suc.IH [OF i1 f(3) f(1) k1 f(2)] obtain g' l2 where
    g': "played (play_ticks (Suc k) (Suc t) (lastActionTime g1)) g1 g' l2"
      "set l2 = {int (Suc t)..15}"
      "turn g' = 0 \<and> currentStep g' = 0 \<and> \<not> showingSequence g' \<and> \<not> waitingForInput g'
        \<and> (\<exists>o1. out g' = o1 @ win_events @ [Delay 50])"
    by blast
  from played_append [OF g1(1) g'(1)] f(5)
  have "played (play_ticks (Suc (Suc k)) t (lastActionTime g)) g g' (l1 @ l2)" by simp
  moreover have "set (l1 @ l2) = {int t..15}"
    using g1(2) g'(2) t by auto
  ultimately show ?case using g'(3) by blast
qed

lemma full_game_played:
  "\<exists>g' lvs. played full_game game0 g' lvs \<and> set lvs = {0..15}
     \<and> turn g' = 0 \<and> currentStep g' = 0 \<and> \<not> showingSequence g' \<and> \<not> waitingForInput g'
     \<and> (\<exists>o1. out g' = o1 @ win_events @ [Delay 50])"
proof -
  have late: "STEP_DELAY < 6500 - lastActionTime game0"
    by (simp add: STEP_DELAY_def game0_def)
  have "\<exists>g1. played [quiet_tick 6500] game0 g1 [turn game0]
          \<and> ctl g1 = (turn game0, 0 + 1, True, False, 6500 + 300)"
    by (rule quiet_tick_note [OF game_inv_game0 _ _ _ _ late]) (simp_all add: game0_def)
  then obtain g1 where
    g1: "played [quiet_tick 6500] game0 g1 [0]" "ctl g1 = (0, 1, True, False, 6800)"
    by (auto simp: game0_def)
  from g1(2) have f: "turn g1 = int 0" "currentStep g1 = 1" "showingSequence g1"
    "lastActionTime g1 = 6800"
    by (simp_all add: ctl_def)
  have i1: "game_inv g1" using f g1(2) by (simp add: game_inv_def ctl_def)
  have "\<exists>g' lvs. played (play_ticks (Suc 14) 0 (lastActionTime g1)) g1 g' lvs
        \<and> set lvs = {int 0..15}
        \<and> turn g' = 0 \<and> currentStep g' = 0 \<and> \<not> showingSequence g' \<and> \<not> waitingForInput g'
        \<and> (\<exists>o1. out g' = o1 @ win_events @ [Delay 50])"
    by (rule levels_played [OF i1 f(3) f(1) _ f(2)]) simp
  then obtain g' lvs where
    g': "played (play_ticks 15 0 6800) g1 g' lvs" "set lvs = {0..15}"
      "turn g' = 0 \<and> currentStep g' = 0 \<and> \<not> showingSequence g' \<and> \<not> waitingForInput g'
        \<and> (\<exists>o1. out g' = o1 @ win_events @ [Delay 50])"
    using f(4) by auto
  from played_append [OF g1(1) g'(1)] have "played full_game game0 g' (0 # lvs)"
    by (simp add: full_game_def)
  moreover have "set (0 # lvs) = {0..15}" using g'(2) by auto
  ultimately show ?thesis using g'(3) by blast
qed

text \<open>
  Claim C1. Let \<open>g\<close> be a state of the game that satisfies the invariant (every state
  reached from \<open>setup()\<close> does, lemma \<open>run_game_inv\<close>). In a loop iteration in which
  every accepted press is the expected note, the level never decreases in
  \<open>handleButtons\<close>: it stays, or it goes up by exactly one, and it goes up only by
  completing the level that was awaiting input. \<open>runMemoryGame\<close> then keeps a level below
  15, and as soon as the level is 15 it plays \<open>winSequence\<close> and resets the level and
  the step to 0, neither showing nor awaiting input. So along every run in which the
  accepted presses are correct, the levels climb: each is the one before or one more, and
  the count restarts from 0 after 15. Entering what is left of the prefix of the
  current level completes it: each press before the last keeps the level and advances
  the step, the last one raises the level by one. And the complete game \<open>full_game\<close>,
  played from \<open>setup()\<close> on the clock of the firmware, passes through every level from
  0 to 15 and ends with the win sequence and the game reset. The win sequence is: all
  six LEDs on, the tones E, G, E and C, all six LEDs off.
\<close>

theorem game_correct_play:
  assumes "game_inv g"
  shows "(correctScan [0..<6] pr g \<longrightarrow>
           (\<exists>g1 g2. handleButtons pr g = Some g1 \<and> runMemoryGame t1 t2 g1 = Some g2
              \<and> 0 \<le> turn g \<and> turn g1 \<le> 15
              \<and> (turn g1 = turn g \<or> turn g1 = turn g + 1)
              \<and> (turn g1 = turn g + 1 \<longrightarrow> waitingForInput g \<and> \<not> waitingForInput g1)
              \<and> (turn g1 < 15 \<longrightarrow> turn g2 = turn g1)
              \<and> (turn g1 \<ge> 15 \<longrightarrow>
                   g2 = g1\<lparr>turn := 0, currentStep := 0, showingSequence := False,
                           waitingForInput := False, out := out g1 @ win_events\<rparr>)))
       \<and> (correctRun tks g \<longrightarrow> climbs (turn g) (levels tks g))
       \<and> (waitingForInput g \<longrightarrow>
           (\<exists>g'. enter (prefix_at g) g = Some g' \<and> turn g' = turn g + 1
              \<and> \<not> waitingForInput g' \<and> \<not> showingSequence g')
           \<and> (\<forall>k < length (prefix_at g). \<exists>g''. enter (take k (prefix_at g)) g = Some g''
                 \<and> turn g'' = turn g \<and> waitingForInput g''
                 \<and> currentStep g'' = currentStep g + int k))
       \<and> correctRun full_game game0
       \<and> set (levels full_game game0) = {0..15}
       \<and> (\<exists>g'. run_game full_game game0 = Some g' \<and> turn g' = 0 \<and> currentStep g' = 0
             \<and> \<not> showingSequence g' \<and> \<not> waitingForInput g'
             \<and> (\<exists>o1. out g' = o1 @ win_events @ [Delay 50]))
       \<and> win_events =
           [Println ''YOU WIN!'',
            DigitalWrite (Dpin 11) True, DigitalWrite (Dpin 9) True, DigitalWrite (Dpin 5) True,
            DigitalWrite (Apin 0) True, DigitalWrite (Apin 2) True, DigitalWrite (Apin 4) True,
            Tone (Apin 5) 330 400, Delay 500, Tone (Apin 5) 392 400, Delay 500,
            Tone (Apin 5) 330 400, Delay 500, Tone (Apin 5) 262 600, Delay 700,
            NoTone (Apin 5),
            DigitalWrite (Dpin 11) False, DigitalWrite (Dpin 9) False, DigitalWrite (Dpin 5) False,
            DigitalWrite (Apin 0) False, DigitalWrite (Apin 2) False, DigitalWrite (Apin 4) False,
            Delay 2000]"
proof -
  have scan: "\<exists>g1 g2. handleButtons pr g = Some g1 \<and> runMemoryGame t1 t2 g1 = Some g2
              \<and> 0 \<le> turn g \<and> turn g1 \<le> 15
              \<and> (turn g1 = turn g \<or> turn g1 = turn g + 1)
              \<and> (turn g1 = turn g + 1 \<longrightarrow> waitingForInput g \<and> \<not> waitingForInput g1)
              \<and> (turn g1 < 15 \<longrightarrow> turn g2 = turn g1)
              \<and> (turn g1 \<ge> 15 \<longrightarrow>
                   g2 = g1\<lparr>turn := 0, currentStep := 0, showingSequence := False,
                           waitingForInput := False, out := out g1 @ win_events\<rparr>)"
    if c: "correctScan [0..<6] pr g"
  proof -
    from scanButtons_level_step [OF assms c] obtain g1 where
      g1: "handleButtons pr g = Some g1" "level_step g g1" "game_inv g1"
      unfolding handleButtons_def by blast
    from runMemoryGame_inv [OF g1(3)] obtain g2 where
      g2: "runMemoryGame t1 t2 g1 = Some g2" by blast
    have lo: "0 \<le> turn g" and hi: "turn g1 \<le> 15"
      using assms g1(3) by (simp_all add: game_inv_def)
    have st: "turn g1 = turn g \<or> turn g1 = turn g + 1"
      and up: "turn g1 = turn g + 1 \<longrightarrow> waitingForInput g \<and> \<not> waitingForInput g1"
      using g1(2) by (auto simp: level_step_def)
    have keep: "turn g1 < 15 \<longrightarrow> turn g2 = turn g1"
      using runMemoryGame_keeps_turn [OF _ g2] by blast
    have win: "turn g1 \<ge> 15 \<longrightarrow>
                   g2 = g1\<lparr>turn := 0, currentStep := 0, showingSequence := False,
                           waitingForInput := False, out := out g1 @ win_events\<rparr>"
      using runMemoryGame_win [of g1 t1 t2] g2 by auto
    from g1(1) g2 lo hi st up keep win show ?thesis by blast
  qed
  have run: "correctRun tks g \<longrightarrow> climbs (turn g) (levels tks g)"
    using correct_run_climbs [OF assms] by blast
  have ent: "(\<exists>g'. enter (prefix_at g) g = Some g' \<and> turn g' = turn g + 1
              \<and> \<not> waitingForInput g' \<and> \<not> showingSequence g')
           \<and> (\<forall>k < length (prefix_at g). \<exists>g''. enter (take k (prefix_at g)) g = Some g''
                 \<and> turn g'' = turn g \<and> waitingForInput g''
                 \<and> currentStep g'' = currentStep g + int k)"
    if w: "waitingForInput g"
    using enter_prefix [OF assms w refl] by blast
  from full_game_played obtain gf lvs where
    "played full_game game0 gf lvs" "set lvs = {0..15}"
    "turn gf = 0 \<and> currentStep gf = 0 \<and> \<not> showingSequence gf \<and> \<not> waitingForInput gf
     \<and> (\<exists>o1. out gf = o1 @ win_events @ [Delay 50])"
    by blast
  then have full: "correctRun full_game game0" "set (levels full_game game0) = {0..15}"
    "\<exists>g'. run_game full_game game0 = Some g' \<and> turn g' = 0 \<and> currentStep g' = 0
             \<and> \<not> showingSequence g' \<and> \<not> waitingForInput g'
             \<and> (\<exists>o1. out g' = o1 @ win_events @ [Delay 50])"
    by (auto simp: played_def)
  have wev: "win_events =
           [Println ''YOU WIN!'',
            DigitalWrite (Dpin 11) True, DigitalWrite (Dpin 9) True, DigitalWrite (Dpin 5) True,
            DigitalWrite (Apin 0) True, DigitalWrite (Apin 2) True, DigitalWrite (Apin 4) True,
            Tone (Apin 5) 330 400, Delay 500, Tone (Apin 5) 392 400, Delay 500,
            Tone (Apin 5) 330 400, Delay 500, Tone (Apin 5) 262 600, Delay 700,
            NoTone (Apin 5),
            DigitalWrite (Dpin 11) False, DigitalWrite (Dpin 9) False, DigitalWrite (Dpin 5) False,
            DigitalWrite (Apin 0) False, DigitalWrite (Apin 2) False, DigitalWrite (Apin 4) False,
            Delay 2000]"
    by (simp add: win_events_def all_leds_def ledPins_def upt_rec SPEAKER_PIN_def
        NOTE_C_def NOTE_E_def NOTE_G_def)
  from scan run ent full wev show ?thesis by blast
qed

text \<open>
  The last press of the game: at level 14 with fourteen notes entered, button 2
  (\<open>melody[14] = 2\<close>) raises the level to 15, and \<open>runMemoryGame\<close> in the same loop
  iteration resets it to 0 after the win sequence.
\<close>

theorem game_correct_play_witness:
  "game_inv (game0\<lparr>turn := 14, currentStep := 14, waitingForInput := True\<rparr>)
   \<and> correctScan [0..<6] (\<lambda>i. i = 1) (game0\<lparr>turn := 14, currentStep := 14, waitingForInput := True\<rparr>)
   \<and> correctRun [tick_press 1 0] (game0\<lparr>turn := 14, currentStep := 14, waitingForInput := True\<rparr>)
   \<and> climbs 14 (levels [tick_press 1 0]
        (game0\<lparr>turn := 14, currentStep := 14, waitingForInput := True\<rparr>))
   \<and> waitingForInput (game0\<lparr>turn := 14, currentStep := 14, waitingForInput := True\<rparr>)
   \<and> (\<exists>g1 g2. handleButtons (\<lambda>i. i = 1)
                  (game0\<lparr>turn := 14, currentStep := 14, waitingForInput := True\<rparr>) = Some g1
        \<and> turn g1 = 15 \<and> runMemoryGame 0 0 g1 = Some g2
        \<and> turn g2 = 0 \<and> currentStep g2 = 0 \<and> \<not> showingSequence g2 \<and> \<not> waitingForInput g2
        \<and> out g2 = out g1 @ win_events)
   \<and> prefix_at (game0\<lparr>turn := 14, currentStep := 14, waitingForInput := True\<rparr>) = [2]
   \<and> (\<exists>g'. enter [2] (game0\<lparr>turn := 14, currentStep := 14, waitingForInput := True\<rparr>) = Some g'
        \<and> turn g' = 15)"
proof -
  let ?g = "game0\<lparr>turn := 14, currentStep := 14, waitingForInput := True\<rparr>"
  have i: "game_inv ?g" by (simp add: game_inv_def game0_def)
  have w: "waitingForInput ?g" by simp
  have c: "correctScan [0..<6] (\<lambda>i. i = 1) ?g"
    by (simp add: upt_rec handleButton_def checkGameInput_def emit_def Let_def
        melody_at_def melodyLength_15 melody_def game0_def)
  then have r: "correctRun [tick_press 1 0] ?g"
    by (simp add: tick_press_def split: option.splits)
  have p: "prefix_at ?g = [2]" by (simp add: prefix_at_def melody_def)
  from game_correct_play [OF i, of "\<lambda>i. i = 1" 0 0 "[tick_press 1 0]"] c w r obtain g1 g2 g' where
    g1: "handleButtons (\<lambda>i. i = 1) ?g = Some g1" "runMemoryGame 0 0 g1 = Some g2"
      "turn g1 = turn ?g \<or> turn g1 = turn ?g + 1"
      "turn g1 \<ge> 15 \<longrightarrow>
         g2 = g1\<lparr>turn := 0, currentStep := 0, showingSequence := False,
                 waitingForInput := False, out := out g1 @ win_events\<rparr>"
    and g': "enter (prefix_at ?g) ?g = Some g'" "turn g' = turn ?g + 1"
    and cl: "climbs (turn ?g) (levels [tick_press 1 0] ?g)"
    by blast
  have "turn g1 = 15"
    using g1(1)
    by (simp add: handleButtons_def upt_rec handleButton_def checkGameInput_def emit_def Let_def
        melody_at_def melodyLength_15 melody_def game0_def split: if_splits)
      auto
  with g1 have "turn g1 = 15 \<and> runMemoryGame 0 0 g1 = Some g2
        \<and> turn g2 = 0 \<and> currentStep g2 = 0 \<and> \<not> showingSequence g2 \<and> \<not> waitingForInput g2
        \<and> out g2 = out g1 @ win_events" by simp
  with g1(1) g' p i c w r cl show ?thesis by auto
qed

section \<open>Properties of the presence gates and the breathing effect\<close>

lemma length_fold_setPixelColor [simp]:
  "length (pixels (fold (\<lambda>i. setPixelColor i (f i)) js st)) = length (pixels st)"
  by (induction js arbitrary: st) (simp_all add: setPixelColor_def)

lemma sent_fold_setPixelColor [simp]:
  "sent (fold (\<lambda>i. setPixelColor i (f i)) js st) = sent st"
  by (induction js arbitrary: st) (simp_all add: setPixelColor_def)

lemma nth_fold_setPixelColor:
  "distinct js \<Longrightarrow> k < length (pixels st) \<Longrightarrow>
     pixels (fold (\<lambda>i. setPixelColor i (f i)) js st) ! k =
       (if k \<in> set js then f k else pixels st ! k)"
proof (induction js arbitrary: st)
  case Nil
  then show ?case by simp
next
  case (Cons j js)
  have "length (pixels (setPixelColor j (f j) st)) = length (pixels st)"
    by (simp add: setPixelColor_def)
  with Cons.prems have k: "k < length (pixels (setPixelColor j (f j) st))" by simp
  from Cons.prems have d: "distinct js" and nj: "j \<notin> set js" by simp_all
  show ?case
    using Cons.IH [OF d k] nj Cons.prems(2)
    by (auto simp: setPixelColor_def)
qed

lemma pixels_fill:
  assumes "length (pixels st) = n"
  shows "pixels (fold (\<lambda>i. setPixelColor i (f i)) [0..<n] st) = map f [0..<n]"
proof (rule nth_equalityI)
  show "length (pixels (fold (\<lambda>i. setPixelColor i (f i)) [0..<n] st)) = length (map f [0..<n])"
    using assms by simp
next
  fix k
  assume "k < length (pixels (fold (\<lambda>i. setPixelColor i (f i)) [0..<n] st))"
  then have k: "k < n" using assms by simp
  then have "k < length (pixels st)" using assms by simp
  from nth_fold_setPixelColor [OF distinct_upt this, of f 0 n] k
  show "pixels (fold (\<lambda>i. setPixelColor i (f i)) [0..<n] st) ! k = map f [0..<n] ! k"
    by simp
qed

lemma clearStrip_pixels:
  assumes "length (pixels st) = n"
  shows "pixels (clearStrip st n) = replicate n 0"
    and "sent (clearStrip st n) = sent st @ [replicate n 0]"
proof -
  have "pixels (fold (\<lambda>i. setPixelColor i 0) [0..<n] st) = map (\<lambda>_. 0) [0..<n]"
    using pixels_fill [OF assms, of "\<lambda>_. 0"] by simp
  then have p: "pixels (fold (\<lambda>i. setPixelColor i 0) [0..<n] st) = replicate n 0"
    by (simp add: map_replicate_const)
  then show "pixels (clearStrip st n) = replicate n 0"
    by (simp add: clearStrip_def show_strip_def)
  from p show "sent (clearStrip st n) = sent st @ [replicate n 0]"
    using sent_fold_setPixelColor [of "\<lambda>_. 0" "[0..<n]" st]
    by (simp add: clearStrip_def show_strip_def)
qed

lemma showRainbowStatic_pixels:
  assumes "length (pixels st) = n"
  shows "pixels (showRainbowStatic st n) = rainbow n"
    and "sent (showRainbowStatic st n) = sent st @ [rainbow n]"
  using pixels_fill [OF assms, of "\<lambda>i. colorWheel (byte_of (int i * (255 div max 1 (int n - 1))))"]
  by (simp_all add: showRainbowStatic_def show_strip_def rainbow_def)

lemma showBreathingEffect_idle:
  assumes "breath_t1 inp - lastBreathUpdate l \<le> BREATH_INTERVAL"
  shows "showBreathingEffect st n inp l = (st, l)"
  using assms by (simp add: showBreathingEffect_def not_less [symmetric])

lemma showBreathingEffect_fires:
  assumes "breath_t1 inp - lastBreathUpdate l > BREATH_INTERVAL" and "length (pixels st) = n"
  shows "pixels (fst (showBreathingEffect st n inp l)) = replicate n (breath_color (breath_val inp))"
    and "sent (fst (showBreathingEffect st n inp l)) =
           sent st @ [replicate n (breath_color (breath_val inp))]"
    and "lastBreathUpdate (snd (showBreathingEffect st n inp l)) = breath_t3 inp"
    and "val (snd (showBreathingEffect st n inp l)) = breath_val inp"
proof -
  have p: "pixels (fold (\<lambda>i. setPixelColor i (breath_color (breath_val inp))) [0..<n] st)
             = replicate n (breath_color (breath_val inp))"
    using pixels_fill [OF assms(2), of "\<lambda>_. breath_color (breath_val inp)"]
    by (simp add: map_replicate_const)
  show "pixels (fst (showBreathingEffect st n inp l)) = replicate n (breath_color (breath_val inp))"
    using assms(1) p by (simp add: showBreathingEffect_def Let_def show_strip_def breath_color_def)
  show "sent (fst (showBreathingEffect st n inp l)) =
           sent st @ [replicate n (breath_color (breath_val inp))]"
    using assms(1) p sent_fold_setPixelColor [of "\<lambda>_. breath_color (breath_val inp)" "[0..<n]" st]
    by (simp add: showBreathingEffect_def Let_def show_strip_def breath_color_def)
  show "lastBreathUpdate (snd (showBreathingEffect st n inp l)) = breath_t3 inp"
    using assms(1) by (simp add: showBreathingEffect_def Let_def)
  show "val (snd (showBreathingEffect st n inp l)) = breath_val inp"
    using assms(1) by (simp add: showBreathingEffect_def Let_def)
qed

lemma showBreathingEffect_shape:
  "length (pixels (fst (showBreathingEffect st n inp l))) = length (pixels st)"
  "stripA (snd (showBreathingEffect st n inp l)) = stripA l"
  "stripB (snd (showBreathingEffect st n inp l)) = stripB l"
  by (simp_all add: showBreathingEffect_def Let_def show_strip_def)

lemma stripA_sensing:
  "stripA (runUltrasonicSensing inp l) =
     (if gate (distA inp) then fst (showBreathingEffect (stripA l) LED_COUNT_A inp l)
      else clearStrip (stripA l) LED_COUNT_A)"
  by (simp add: runUltrasonicSensing_def Let_def gate_def split: prod.splits option.splits)

lemma stripB_sensing:
  "stripB (runUltrasonicSensing inp l) =
     (if gate (distB inp) then showRainbowStatic (stripB l) LED_COUNT_B
      else clearStrip (stripB l) LED_COUNT_B)"
proof -
  obtain st l' where sb: "showBreathingEffect (stripA l) LED_COUNT_A inp l = (st, l')"
    by (cases "showBreathingEffect (stripA l) LED_COUNT_A inp l")
  then have "stripB l' = stripB l"
    using showBreathingEffect_shape(3) [of "stripA l" LED_COUNT_A inp l] by simp
  with sb show ?thesis
    by (simp add: runUltrasonicSensing_def Let_def gate_def split: option.splits)
qed

lemma breath_globals_sensing:
  "lastBreathUpdate (runUltrasonicSensing inp l) =
     (if gate (distA inp) then lastBreathUpdate (snd (showBreathingEffect (stripA l) LED_COUNT_A inp l))
      else lastBreathUpdate l)"
  "val (runUltrasonicSensing inp l) =
     (if gate (distA inp) then val (snd (showBreathingEffect (stripA l) LED_COUNT_A inp l))
      else val l)"
  "hue (runUltrasonicSensing inp l) =
     (if gate (distA inp) then hue (snd (showBreathingEffect (stripA l) LED_COUNT_A inp l))
      else hue l)"
  "sat (runUltrasonicSensing inp l) =
     (if gate (distA inp) then sat (snd (showBreathingEffect (stripA l) LED_COUNT_A inp l))
      else sat l)"
  by (simp_all add: runUltrasonicSensing_def Let_def gate_def split: prod.splits option.splits)

lemma length_rainbow [simp]: "length (rainbow n) = n"
  by (simp add: rainbow_def)

lemma lights_ok_sensing: "lights_ok l \<Longrightarrow> lights_ok (runUltrasonicSensing inp l)"
  unfolding lights_ok_def stripA_sensing stripB_sensing
  using showBreathingEffect_shape(1) [of "stripA l" LED_COUNT_A inp l]
  by (simp add: clearStrip_pixels(1) showRainbowStatic_pixels(1))

lemma lights_ok_run: "lights_ok l \<Longrightarrow> lights_ok (run_lights inps l)"
  by (induction inps arbitrary: l) (simp_all add: lights_ok_sensing)

lemma lights_ok_lights0: "lights_ok lights0"
  by (simp add: lights_ok_def lights0_def strip0_def)

lemma run_lights_snoc:
  "run_lights (inps @ [inp]) l = runUltrasonicSensing inp (run_lights inps l)"
  by (induction inps arbitrary: l) simp_all

text \<open>
  Claim C5. The gate is true exactly for a reading that is not NaN and greater than
  3.0. It decides what \<open>runUltrasonicSensing\<close> does with each strip, whatever the state
  left by earlier readings: strip B shows the rainbow when the gate of reading B is true
  and is dark otherwise, strip A is handed to \<open>showBreathingEffect\<close> when the gate of
  reading A is true and is dark otherwise. After any sequence of readings, what strip B
  shows is a function of the last reading alone.
\<close>

theorem presence_gate:
  "(gate d \<longleftrightarrow> (\<exists>x. d = Some x \<and> x > 3))
   \<and> (lights_ok l \<longrightarrow>
        pixels (stripB (runUltrasonicSensing inp l)) =
          (if gate (distB inp) then rainbow 5 else replicate 5 0)
        \<and> sent (stripB (runUltrasonicSensing inp l)) =
            sent (stripB l) @ [if gate (distB inp) then rainbow 5 else replicate 5 0])
   \<and> stripA (runUltrasonicSensing inp l) =
        (if gate (distA inp) then fst (showBreathingEffect (stripA l) 5 inp l)
         else clearStrip (stripA l) 5)
   \<and> pixels (stripB (run_lights (inps @ [inp]) lights0)) =
        (if gate (distB inp) then rainbow 5 else replicate 5 0)"
proof -
  have g: "gate d \<longleftrightarrow> (\<exists>x. d = Some x \<and> x > 3)"
    by (cases d) (simp_all add: gate_def THRESH_CM_def)
  have b: "pixels (stripB (runUltrasonicSensing inp l)) =
          (if gate (distB inp) then rainbow 5 else replicate 5 0)
        \<and> sent (stripB (runUltrasonicSensing inp l)) =
            sent (stripB l) @ [if gate (distB inp) then rainbow 5 else replicate 5 0]"
    if ok: "lights_ok l" for l
  proof -
    from ok have n: "length (pixels (stripB l)) = LED_COUNT_B" by (simp add: lights_ok_def)
    show ?thesis
      unfolding stripB_sensing
      using clearStrip_pixels [OF n] showRainbowStatic_pixels [OF n]
      by (simp add: LED_COUNT_B_def)
  qed
  have a: "stripA (runUltrasonicSensing inp l) =
        (if gate (distA inp) then fst (showBreathingEffect (stripA l) 5 inp l)
         else clearStrip (stripA l) 5)"
    using stripA_sensing [of inp l] by (simp add: LED_COUNT_A_def)
  have r: "pixels (stripB (run_lights (inps @ [inp]) lights0)) =
        (if gate (distB inp) then rainbow 5 else replicate 5 0)"
    using b [OF lights_ok_run [OF lights_ok_lights0, of inps]]
    by (simp add: run_lights_snoc)
  from g b a r show ?thesis by blast
qed

theorem presence_gate_witness:
  "gate (Some 4) \<and> \<not> gate (Some 3) \<and> \<not> gate None
   \<and> lights_ok lights0
   \<and> pixels (stripB (runUltrasonicSensing
        \<lparr>distA = None, distB = Some 4, breath_t1 = 0, breath_val = 0, breath_t3 = 0,
         print_t1 = 0, print_t2 = 0\<rparr> lights0)) = rainbow 5
   \<and> pixels (stripB (runUltrasonicSensing
        \<lparr>distA = None, distB = Some 3, breath_t1 = 0, breath_val = 0, breath_t3 = 0,
         print_t1 = 0, print_t2 = 0\<rparr> lights0)) = replicate 5 0"
proof -
  have g1: "gate (Some 4)" using presence_gate [of "Some 4"] by simp
  have g2: "\<not> gate (Some 3)" using presence_gate [of "Some 3"] by simp
  have g3: "\<not> gate None" using presence_gate [of None] by simp
  from presence_gate [of None lights0
      "\<lparr>distA = None, distB = Some 4, breath_t1 = 0, breath_val = 0, breath_t3 = 0,
         print_t1 = 0, print_t2 = 0\<rparr>"] lights_ok_lights0 g1
  have p1: "pixels (stripB (runUltrasonicSensing
        \<lparr>distA = None, distB = Some 4, breath_t1 = 0, breath_val = 0, breath_t3 = 0,
         print_t1 = 0, print_t2 = 0\<rparr> lights0)) = rainbow 5"
    by simp
  from presence_gate [of None lights0
      "\<lparr>distA = None, distB = Some 3, breath_t1 = 0, breath_val = 0, breath_t3 = 0,
         print_t1 = 0, print_t2 = 0\<rparr>"] lights_ok_lights0 g2
  have p2: "pixels (stripB (runUltrasonicSensing
        \<lparr>distA = None, distB = Some 3, breath_t1 = 0, breath_val = 0, breath_t3 = 0,
         print_t1 = 0, print_t2 = 0\<rparr> lights0)) = replicate 5 0"
    by simp
  from g1 g2 g3 lights_ok_lights0 p1 p2 show ?thesis by blast
qed

text \<open>
  Claim C6. One call of \<open>runUltrasonicSensing\<close> is one tick of the breathing effect
  on strip A. When the gate of reading A is false, the strip is cleared on that tick,
  whatever the clock says: all five pixels are 0 and that frame is sent. When the gate is
  true and no more than 30 ms have passed since the last update (in particular when less
  than 30 ms have passed), the tick does nothing: strip, frames sent, hue, saturation,
  value and the time of the last update are unchanged. A colour frame is sent only in the
  remaining case: the gate is true and more than 30 ms have passed.
\<close>

theorem breathing_tick:
  assumes "lights_ok l"
  shows "(\<not> gate (distA inp) \<longrightarrow>
            pixels (stripA (runUltrasonicSensing inp l)) = replicate 5 0
            \<and> sent (stripA (runUltrasonicSensing inp l)) = sent (stripA l) @ [replicate 5 0]
            \<and> lastBreathUpdate (runUltrasonicSensing inp l) = lastBreathUpdate l)
       \<and> (gate (distA inp) \<and> unat (breath_t1 inp - lastBreathUpdate l) \<le> 30 \<longrightarrow>
            stripA (runUltrasonicSensing inp l) = stripA l
            \<and> lastBreathUpdate (runUltrasonicSensing inp l) = lastBreathUpdate l
            \<and> hue (runUltrasonicSensing inp l) = hue l
            \<and> sat (runUltrasonicSensing inp l) = sat l
            \<and> val (runUltrasonicSensing inp l) = val l)
       \<and> (gate (distA inp) \<and> unat (breath_t1 inp - lastBreathUpdate l) > 30 \<longrightarrow>
            pixels (stripA (runUltrasonicSensing inp l)) =
              replicate 5 (breath_color (breath_val inp))
            \<and> sent (stripA (runUltrasonicSensing inp l)) =
                sent (stripA l) @ [replicate 5 (breath_color (breath_val inp))]
            \<and> lastBreathUpdate (runUltrasonicSensing inp l) = breath_t3 inp)"
proof -
  from assms have n: "length (pixels (stripA l)) = LED_COUNT_A" by (simp add: lights_ok_def)
  have off: "pixels (stripA (runUltrasonicSensing inp l)) = replicate 5 0
            \<and> sent (stripA (runUltrasonicSensing inp l)) = sent (stripA l) @ [replicate 5 0]
            \<and> lastBreathUpdate (runUltrasonicSensing inp l) = lastBreathUpdate l"
    if "\<not> gate (distA inp)"
    using that clearStrip_pixels [OF n]
    by (simp add: stripA_sensing breath_globals_sensing LED_COUNT_A_def)
  have idle: "stripA (runUltrasonicSensing inp l) = stripA l
            \<and> lastBreathUpdate (runUltrasonicSensing inp l) = lastBreathUpdate l
            \<and> hue (runUltrasonicSensing inp l) = hue l
            \<and> sat (runUltrasonicSensing inp l) = sat l
            \<and> val (runUltrasonicSensing inp l) = val l"
    if g: "gate (distA inp)" and t: "unat (breath_t1 inp - lastBreathUpdate l) \<le> 30"
  proof -
    from t have "breath_t1 inp - lastBreathUpdate l \<le> BREATH_INTERVAL"
      by (simp add: BREATH_INTERVAL_def word_le_nat_alt)
    from showBreathingEffect_idle [OF this] g show ?thesis
      by (simp add: stripA_sensing breath_globals_sensing)
  qed
  have fire: "pixels (stripA (runUltrasonicSensing inp l)) =
              replicate 5 (breath_color (breath_val inp))
            \<and> sent (stripA (runUltrasonicSensing inp l)) =
                sent (stripA l) @ [replicate 5 (breath_color (breath_val inp))]
            \<and> lastBreathUpdate (runUltrasonicSensing inp l) = breath_t3 inp"
    if g: "gate (distA inp)" and t: "unat (breath_t1 inp - lastBreathUpdate l) > 30"
  proof -
    from t have "breath_t1 inp - lastBreathUpdate l > BREATH_INTERVAL"
      by (simp add: BREATH_INTERVAL_def word_less_nat_alt)
    from showBreathingEffect_fires [OF this n] g show ?thesis
      by (simp add: stripA_sensing breath_globals_sensing LED_COUNT_A_def)
  qed
  from off idle fire show ?thesis by blast
qed

text \<open>
  At exactly 30 ms after the last update, with the gate true, nothing is sent; at 31 ms a
  frame is; with the gate false the strip is cleared although only 1 ms has passed.
\<close>

theorem breathing_tick_witness:
  "lights_ok (lights0\<lparr>lastBreathUpdate := 100\<rparr>)
   \<and> gate (Some 10) \<and> unat (130 - 100 :: millis) \<le> 30
   \<and> stripA (runUltrasonicSensing
        \<lparr>distA = Some 10, distB = None, breath_t1 = 130, breath_val = 200, breath_t3 = 131,
         print_t1 = 0, print_t2 = 0\<rparr> (lights0\<lparr>lastBreathUpdate := 100\<rparr>)) = stripA lights0
   \<and> unat (131 - 100 :: millis) > 30
   \<and> lastBreathUpdate (runUltrasonicSensing
        \<lparr>distA = Some 10, distB = None, breath_t1 = 131, breath_val = 200, breath_t3 = 132,
         print_t1 = 0, print_t2 = 0\<rparr> (lights0\<lparr>lastBreathUpdate := 100\<rparr>)) = 132
   \<and> \<not> gate None
   \<and> sent (stripA (runUltrasonicSensing
        \<lparr>distA = None, distB = None, breath_t1 = 101, breath_val = 200, breath_t3 = 102,
         print_t1 = 0, print_t2 = 0\<rparr> (lights0\<lparr>lastBreathUpdate := 100\<rparr>))) =
       [replicate 5 0, replicate 5 0]"
proof -
  let ?l = "lights0\<lparr>lastBreathUpdate := 100\<rparr>"
  have ok: "lights_ok ?l" using lights_ok_lights0 by (simp add: lights_ok_def)
  have g: "gate (Some 10)" and ng: "\<not> gate None" by (simp_all add: gate_def THRESH_CM_def)
  have t30: "unat (130 - 100 :: millis) \<le> 30" and t31: "unat (131 - 100 :: millis) > 30"
    by simp_all
  from breathing_tick [OF ok, of "\<lparr>distA = Some 10, distB = None, breath_t1 = 130,
      breath_val = 200, breath_t3 = 131, print_t1 = 0, print_t2 = 0\<rparr>"] g t30
  have a: "stripA (runUltrasonicSensing
        \<lparr>distA = Some 10, distB = None, breath_t1 = 130, breath_val = 200, breath_t3 = 131,
         print_t1 = 0, print_t2 = 0\<rparr> ?l) = stripA lights0"
    by simp
  from breathing_tick [OF ok, of "\<lparr>distA = Some 10, distB = None, breath_t1 = 131,
      breath_val = 200, breath_t3 = 132, print_t1 = 0, print_t2 = 0\<rparr>"] g t31
  have b: "lastBreathUpdate (runUltrasonicSensing
        \<lparr>distA = Some 10, distB = None, breath_t1 = 131, breath_val = 200, breath_t3 = 132,
         print_t1 = 0, print_t2 = 0\<rparr> ?l) = 132"
    by simp
  from breathing_tick [OF ok, of "\<lparr>distA = None, distB = None, breath_t1 = 101,
      breath_val = 200, breath_t3 = 102, print_t1 = 0, print_t2 = 0\<rparr>"] ng
  have c: "sent (stripA (runUltrasonicSensing
        \<lparr>distA = None, distB = None, breath_t1 = 101, breath_val = 200, breath_t3 = 102,
         print_t1 = 0, print_t2 = 0\<rparr> ?l)) = [replicate 5 0, replicate 5 0]"
    by (simp add: lights0_def strip0_def LED_COUNT_A_def)
  from ok g t30 a t31 b ng c show ?thesis by blast
qed

section \<open>Properties of the signal conditioner and the slideshow\<close>

lemmas parse_simps = ParseDistanceB_def match_here_def is_digit_def is_space_def is_word_def
  digit_val_def digits_val_def group_value_def Let_def

lemma match_here_label: "match_here cs = Some m \<Longrightarrow> has_label cs"
  by (cases cs rule: has_label.cases) (auto simp: match_here_def split: if_splits)

lemma regex_search_label: "regex_search pw cs = Some m \<Longrightarrow> has_label cs"
proof (induction pw cs rule: regex_search.induct)
  case (1 pw)
  then show ?case by simp
next
  case (2 pw c cs)
  show ?case
  proof (cases "if pw then None else match_here (c # cs)")
    case None
    with 2 have "has_label cs" by simp
    then show ?thesis by (cases cs) simp_all
  next
    case (Some m')
    then have "match_here (c # cs) = Some m'" by (simp split: if_splits)
    then show ?thesis by (rule match_here_label)
  qed
qed

lemma no_label_no_value: "\<not> has_label line \<Longrightarrow> ParseDistanceB line = None"
  using regex_search_label [of False line]
  by (auto simp: ParseDistanceB_def split: option.splits)

lemma ingest_unparsed: "ParseDistanceB line = None \<Longrightarrow> ingest line m now1 now2 s = s"
  by (simp add: ingest_def)

lemma process_lines_unparsed:
  "\<forall>line \<in> set ls. ParseDistanceB line = None \<Longrightarrow> process_lines clk k ls s = s"
  by (induction ls arbitrary: k s) (simp_all add: ingest_unparsed)

text \<open>
  Claim C8. A line from which \<open>ParseDistanceB\<close> gets no value leaves the whole state
  as it is: smoothing queue, both edge timers, the flag, and the decisions posted. So
  does a chunk that \<open>Port_DataReceived\<close> splits into such lines. A line without the label \<open>B:\<close> has no value, and neither
  has the line that the firmware prints when both echoes time out (its dash arrives as
  question marks through the ASCII decoding of the port).
\<close>

theorem unparsed_line_ignored:
  "(ParseDistanceB line = None \<longrightarrow> ingest line m now1 now2 s = s)
   \<and> ((\<forall>line \<in> set ls. ParseDistanceB line = None) \<longrightarrow> process_lines clk k ls s = s)
   \<and> ((\<forall>line \<in> set (split_lines [] chunk). ParseDistanceB line = None) \<longrightarrow>
        Port_DataReceived clk chunk s = s)
   \<and> (\<not> has_label line \<longrightarrow> ParseDistanceB line = None)
   \<and> ParseDistanceB ''A: ??? | B: ???'' = None"
proof -
  have "ParseDistanceB ''A: ??? | B: ???'' = None" by (simp add: parse_simps)
  moreover have "(\<forall>line \<in> set (split_lines [] chunk). ParseDistanceB line = None) \<longrightarrow>
        Port_DataReceived clk chunk s = s"
    using process_lines_unparsed [of "split_lines [] chunk" clk 0 s]
    by (simp add: Port_DataReceived_def)
  ultimately show ?thesis
    using ingest_unparsed [of line m now1 now2 s] process_lines_unparsed [of ls clk k s]
      no_label_no_value [of line]
    by blast
qed

theorem unparsed_line_ignored_witness:
  "ParseDistanceB ''A: ??? | B: ???'' = None
   \<and> ingest ''A: ??? | B: ???'' 0 5 6 (app0 []) = app0 []
   \<and> \<not> has_label ''hello'' \<and> ParseDistanceB ''hello'' = None
   \<and> process_lines (\<lambda>k. (0, 5, 6)) 0 [''hello'', ''A: ??? | B: ???''] (app0 []) = app0 []"
proof -
  have a: "ParseDistanceB ''A: ??? | B: ???'' = None"
    using unparsed_line_ignored by blast
  have b: "ingest ''A: ??? | B: ???'' 0 5 6 (app0 []) = app0 []"
    using unparsed_line_ignored [of "''A: ??? | B: ???''" 0 5 6 "app0 []"] a by blast
  have c: "\<not> has_label ''hello''" by simp
  have d: "ParseDistanceB ''hello'' = None"
    using unparsed_line_ignored [of "''hello''"] c by blast
  have "\<forall>line \<in> set [''hello'', ''A: ??? | B: ???'']. ParseDistanceB line = None"
    using a d by simp
  then have e: "process_lines (\<lambda>k. (0, 5, 6)) 0 [''hello'', ''A: ??? | B: ???''] (app0 []) = app0 []"
    using unparsed_line_ignored [of _ _ _ _ _ "[''hello'', ''A: ??? | B: ???'']" "\<lambda>k. (0, 5, 6)" 0]
    by blast
  from a b c d e show ?thesis by blast
qed

subsection \<open>The slideshow\<close>

lemma timer_inv_ingest: "timerOn (ingest line m now1 now2 s) = timerOn s"
  "slideshowOn (ingest line m now1 now2 s) = slideshowOn s"
  "picture (ingest line m now1 now2 s) = picture s"
  "imgIdx (ingest line m now1 now2 s) = imgIdx s"
  "images (ingest line m now1 now2 s) = images s"
  by (simp_all add: ingest_def debounce_def BeginInvoke_def Let_def
      split: option.splits prod.splits)

lemma timer_inv_step: "timer_inv s \<Longrightarrow> timer_inv (app_step e s)"
proof (cases e)
  case (Line line m now1 now2)
  assume "timer_inv s"
  then show ?thesis using Line by (simp add: timer_inv_def timer_inv_ingest)
next
  case Dispatch
  assume "timer_inv s"
  then show ?thesis using Dispatch
    by (auto simp: timer_inv_def dispatch_def run_decision_def StartSlideshow_def
        StopSlideshow_def Let_def split: list.splits decision.splits)
next
  case SlideTick
  assume "timer_inv s"
  then show ?thesis using SlideTick
    by (auto simp: timer_inv_def slide_tick_def AdvancePhoto_def Let_def)
next
  case Disconnect
  assume "timer_inv s"
  then show ?thesis using Disconnect
    by (auto simp: timer_inv_def button2_Click_def StopSlideshow_def)
qed

lemma timer_inv_run: "timer_inv s \<Longrightarrow> timer_inv (run_app es s)"
  by (induction es arbitrary: s) (simp_all add: timer_inv_step)

lemma timer_inv_app0: "timer_inv (app0 imgs)"
  by (simp add: timer_inv_def app0_def)

text \<open>
  Claim C9. In every state that a run of the application reaches, \<open>StopSlideshow\<close>
  leaves the picture shown, the image index and the images as they are, and afterwards
  the slideshow is off and the slide timer is stopped: a tick of the slide timer changes
  nothing any more, so the picture stays as it was before the stop. The same holds when
  the stop arrives as a posted decision.
\<close>

theorem stop_keeps_picture:
  "picture (StopSlideshow (run_app es (app0 imgs))) = picture (run_app es (app0 imgs))
   \<and> imgIdx (StopSlideshow (run_app es (app0 imgs))) = imgIdx (run_app es (app0 imgs))
   \<and> images (StopSlideshow (run_app es (app0 imgs))) = images (run_app es (app0 imgs))
   \<and> \<not> slideshowOn (StopSlideshow (run_app es (app0 imgs)))
   \<and> \<not> timerOn (StopSlideshow (run_app es (app0 imgs)))
   \<and> slide_tick (StopSlideshow (run_app es (app0 imgs))) = StopSlideshow (run_app es (app0 imgs))
   \<and> picture (slide_tick (run_decision Stop (run_app es (app0 imgs))))
       = picture (run_app es (app0 imgs))"
proof -
  let ?s = "run_app es (app0 imgs)"
  have i: "timer_inv ?s" by (rule timer_inv_run [OF timer_inv_app0])
  have p: "picture (StopSlideshow ?s) = picture ?s" "imgIdx (StopSlideshow ?s) = imgIdx ?s"
    "images (StopSlideshow ?s) = images ?s" "\<not> slideshowOn (StopSlideshow ?s)"
    by (simp_all add: StopSlideshow_def)
  have t: "\<not> timerOn (StopSlideshow ?s)"
    using i by (auto simp: StopSlideshow_def timer_inv_def)
  then have k: "slide_tick (StopSlideshow ?s) = StopSlideshow ?s"
    by (simp add: slide_tick_def)
  have "picture (slide_tick (run_decision Stop ?s)) = picture ?s"
    using k p(1) by (simp add: run_decision_def)
  with p t k show ?thesis by blast
qed

subsection \<open>Hysteresis and debounce\<close>

lemma debounce_below:
  assumes "v < StartThresh"
  shows "belowStart (debounce v now1 now2 s) = (if belowStart s = MinValue then now1 else belowStart s)"
    and "aboveStart (debounce v now1 now2 s) = MinValue"
    and "emitted (debounce v now1 now2 s) =
           (if \<not> slideshowOn s \<and> now2 - belowStart (debounce v now1 now2 s) \<ge> startDebounce
            then emitted s @ [Start] else emitted s)"
    and "posted (debounce v now1 now2 s) =
           (if \<not> slideshowOn s \<and> now2 - belowStart (debounce v now1 now2 s) \<ge> startDebounce
            then posted s @ [Start] else posted s)"
  using assms by (auto simp: debounce_def BeginInvoke_def Let_def)

lemma debounce_above:
  assumes "v > StopThresh"
  shows "aboveStart (debounce v now1 now2 s) = (if aboveStart s = MinValue then now1 else aboveStart s)"
    and "belowStart (debounce v now1 now2 s) = MinValue"
    and "emitted (debounce v now1 now2 s) =
           (if slideshowOn s \<and> now2 - aboveStart (debounce v now1 now2 s) \<ge> stopDebounce
            then emitted s @ [Stop] else emitted s)"
    and "posted (debounce v now1 now2 s) =
           (if slideshowOn s \<and> now2 - aboveStart (debounce v now1 now2 s) \<ge> stopDebounce
            then posted s @ [Stop] else posted s)"
proof -
  from assms have nb: "\<not> v < StartThresh" by (simp add: StartThresh_def StopThresh_def)
  show "aboveStart (debounce v now1 now2 s) = (if aboveStart s = MinValue then now1 else aboveStart s)"
    and "belowStart (debounce v now1 now2 s) = MinValue"
    and "emitted (debounce v now1 now2 s) =
           (if slideshowOn s \<and> now2 - aboveStart (debounce v now1 now2 s) \<ge> stopDebounce
            then emitted s @ [Stop] else emitted s)"
    and "posted (debounce v now1 now2 s) =
           (if slideshowOn s \<and> now2 - aboveStart (debounce v now1 now2 s) \<ge> stopDebounce
            then posted s @ [Stop] else posted s)"
    using assms nb by (auto simp: debounce_def BeginInvoke_def Let_def)
qed

lemma debounce_dead_zone:
  assumes "StartThresh \<le> v" and "v \<le> StopThresh"
  shows "debounce v now1 now2 s = s\<lparr>belowStart := MinValue, aboveStart := MinValue\<rparr>"
  using assms by (simp add: debounce_def)

lemma debounce_flag [simp]: "slideshowOn (debounce v now1 now2 s) = slideshowOn s"
  by (simp add: debounce_def BeginInvoke_def Let_def)

lemma debounce_queue [simp]: "last_q (debounce v now1 now2 s) = last_q s"
  by (simp add: debounce_def BeginInvoke_def Let_def)

lemma ingest_parsed:
  assumes "ParseDistanceB line = Some x" and "Smoothed x m (last_q s) = (q, Some v)"
  shows "ingest line m now1 now2 s = debounce v now1 now2 (s\<lparr>last_q := q\<rparr>)"
  using assms by (simp add: ingest_def)

lemma run_decision_flag:
  "slideshowOn (run_decision Start t)" "\<not> slideshowOn (run_decision Stop t)"
  by (simp_all add: run_decision_def StartSlideshow_def StopSlideshow_def Let_def)

lemma thresholds:
  "StopThresh = 3.5" "StartThresh < 2.8" "2.8 - StartThresh < 2 / 10 ^ 16"
  by (simp_all add: StartThresh_def StopThresh_def)

text \<open>
  The mean of the readings 2.5, 2.6 and 3.3 is 2.8, in the dead zone, but the double that
  the code computes for it, \<open>6305039478318693 / 2 ^ 51\<close>, is below \<open>StartThresh\<close>: it
  takes the branch of the start threshold.
\<close>

lemma rounded_mean_below_start:
  "sum_list [2.5, 2.6, 3.3] / 3 = (2.8::real)" "\<not> (2.8::real) < StartThresh"
  "(6305039478318693 / 2 ^ 51 :: real) < StartThresh"
  "belowStart (debounce (6305039478318693 / 2 ^ 51) 7 7 s)
     = (if belowStart s = MinValue then 7 else belowStart s)"
  by (simp_all add: StartThresh_def debounce_def BeginInvoke_def Let_def)

text \<open>
  Claim C2, as the code has it. Take a line with the parsed value \<open>x\<close> and the smoothed
  value \<open>v\<close>, the double that \<open>Smoothed\<close> computes, in any state. The thresholds are the
  doubles of the source: \<open>StopThresh\<close> is 3.5 and \<open>StartThresh\<close> is the double nearest
  to 2.8, less than \<open>2 / 10 ^ 16\<close> below it. Below \<open>StartThresh\<close>: \<open>_belowStart\<close> is set
  to the clock if it was not set, \<open>_aboveStart\<close> is cleared, and \<open>Start\<close> is posted iff
  the flag is off and the second clock reading is at least 250 ms after \<open>_belowStart\<close>.
  Above \<open>StopThresh\<close>: \<open>_aboveStart\<close> is set if it was not, \<open>_belowStart\<close> is cleared,
  and \<open>Stop\<close> is posted iff the flag is on and the reading is at least 700 ms after
  \<open>_aboveStart\<close>. From \<open>StartThresh\<close> to \<open>StopThresh\<close> both timers are cleared and
  nothing is posted. Handling the line never changes the flag itself: the flag is set by
  the posted \<open>StartSlideshow\<close> and cleared by the posted \<open>StopSlideshow\<close>, when the
  window's thread runs them.
\<close>

theorem hysteresis_step:
  assumes "ParseDistanceB line = Some x" and "Smoothed x m (last_q s) = (q, Some v)"
    and "s' = ingest line m now1 now2 s"
  shows "(v < StartThresh \<longrightarrow>
            belowStart s' = (if belowStart s = MinValue then now1 else belowStart s)
            \<and> aboveStart s' = MinValue
            \<and> (emitted s' = emitted s @ [Start] \<and> posted s' = posted s @ [Start]
                 \<longleftrightarrow> \<not> slideshowOn s \<and> now2 - belowStart s' \<ge> ms_ticks 250)
            \<and> (emitted s' = emitted s \<and> posted s' = posted s
                 \<longleftrightarrow> \<not> (\<not> slideshowOn s \<and> now2 - belowStart s' \<ge> ms_ticks 250)))
       \<and> (v > StopThresh \<longrightarrow>
            aboveStart s' = (if aboveStart s = MinValue then now1 else aboveStart s)
            \<and> belowStart s' = MinValue
            \<and> (emitted s' = emitted s @ [Stop] \<and> posted s' = posted s @ [Stop]
                 \<longleftrightarrow> slideshowOn s \<and> now2 - aboveStart s' \<ge> ms_ticks 700)
            \<and> (emitted s' = emitted s \<and> posted s' = posted s
                 \<longleftrightarrow> \<not> (slideshowOn s \<and> now2 - aboveStart s' \<ge> ms_ticks 700)))
       \<and> (StartThresh \<le> v \<and> v \<le> StopThresh \<longrightarrow>
            belowStart s' = MinValue \<and> aboveStart s' = MinValue
            \<and> emitted s' = emitted s \<and> posted s' = posted s)
       \<and> slideshowOn s' = slideshowOn s \<and> last_q s' = q
       \<and> slideshowOn (run_decision Start t) \<and> \<not> slideshowOn (run_decision Stop t)
       \<and> StopThresh = 3.5 \<and> StartThresh < 2.8 \<and> 2.8 - StartThresh < 2 / 10 ^ 16"
proof -
  let ?s = "s\<lparr>last_q := q\<rparr>"
  have s': "s' = debounce v now1 now2 ?s"
    using ingest_parsed [OF assms(1,2)] assms(3) by simp
  have below: "belowStart s' = (if belowStart s = MinValue then now1 else belowStart s)
            \<and> aboveStart s' = MinValue
            \<and> (emitted s' = emitted s @ [Start] \<and> posted s' = posted s @ [Start]
                 \<longleftrightarrow> \<not> slideshowOn s \<and> now2 - belowStart s' \<ge> ms_ticks 250)
            \<and> (emitted s' = emitted s \<and> posted s' = posted s
                 \<longleftrightarrow> \<not> (\<not> slideshowOn s \<and> now2 - belowStart s' \<ge> ms_ticks 250))"
    if lt: "v < StartThresh"
  proof -
    have b: "belowStart s' = (if belowStart s = MinValue then now1 else belowStart s)"
      and a: "aboveStart s' = MinValue"
      using debounce_below(1,2) [OF lt, of now1 now2 ?s] s' by simp_all
    have e: "emitted s' = (if \<not> slideshowOn s \<and> now2 - belowStart s' \<ge> ms_ticks 250
                           then emitted s @ [Start] else emitted s)"
      and p: "posted s' = (if \<not> slideshowOn s \<and> now2 - belowStart s' \<ge> ms_ticks 250
                           then posted s @ [Start] else posted s)"
      using debounce_below(3,4) [OF lt, of now1 now2 ?s] s' by (simp_all add: startDebounce_def)
    from a b e p show ?thesis by simp
  qed
  have above: "aboveStart s' = (if aboveStart s = MinValue then now1 else aboveStart s)
            \<and> belowStart s' = MinValue
            \<and> (emitted s' = emitted s @ [Stop] \<and> posted s' = posted s @ [Stop]
                 \<longleftrightarrow> slideshowOn s \<and> now2 - aboveStart s' \<ge> ms_ticks 700)
            \<and> (emitted s' = emitted s \<and> posted s' = posted s
                 \<longleftrightarrow> \<not> (slideshowOn s \<and> now2 - aboveStart s' \<ge> ms_ticks 700))"
    if gt: "v > StopThresh"
  proof -
    have a: "aboveStart s' = (if aboveStart s = MinValue then now1 else aboveStart s)"
      and b: "belowStart s' = MinValue"
      using debounce_above(1,2) [OF gt, of now1 now2 ?s] s' by simp_all
    have e: "emitted s' = (if slideshowOn s \<and> now2 - aboveStart s' \<ge> ms_ticks 700
                           then emitted s @ [Stop] else emitted s)"
      and p: "posted s' = (if slideshowOn s \<and> now2 - aboveStart s' \<ge> ms_ticks 700
                           then posted s @ [Stop] else posted s)"
      using debounce_above(3,4) [OF gt, of now1 now2 ?s] s' by (simp_all add: stopDebounce_def)
    from a b e p show ?thesis by simp
  qed
  have dead: "belowStart s' = MinValue \<and> aboveStart s' = MinValue
            \<and> emitted s' = emitted s \<and> posted s' = posted s"
    if "StartThresh \<le> v \<and> v \<le> StopThresh"
  proof -
    from that have "StartThresh \<le> v" "v \<le> StopThresh" by simp_all
    from debounce_dead_zone [OF this, of now1 now2 ?s] s' show ?thesis by simp
  qed
  have flag: "slideshowOn s' = slideshowOn s \<and> last_q s' = q" using s' by simp
  have thr: "StopThresh = 3.5 \<and> StartThresh < 2.8 \<and> 2.8 - StartThresh < 2 / 10 ^ 16"
    using thresholds by blast
  from below above dead flag run_decision_flag [of t] thr show ?thesis by blast
qed

text \<open>
  The state used for the concrete runs: no photos loaded. The first line, at tick 1,
  starts the edge timer; the later lines arrive 300 ms (3000000 ticks) after it.
\<close>

lemma smoothed_first: "Smoothed 2 2 [] = ([2], Some 2)"
  by (simp add: Smoothed_def SmoothCount_def)

lemma smoothed_second: "Smoothed 2 2 [2] = ([2, 2], Some 2)"
  by (simp add: Smoothed_def SmoothCount_def)

lemma smoothed_third: "Smoothed 2 2 [2, 2] = ([2, 2, 2], Some 2)"
  by (simp add: Smoothed_def SmoothCount_def)

lemma parse_two: "ParseDistanceB ''B: 2.0'' = Some 2"
  by (simp add: parse_simps)

lemma first_line:
  "ingest ''B: 2.0'' 2 1 1 (app0 []) = (app0 [])\<lparr>belowStart := 1, last_q := [2]\<rparr>"
  by (simp add: ingest_def parse_two smoothed_first debounce_def StartThresh_def app0_def
      MinValue_def startDebounce_def ms_ticks_def Let_def)

lemma second_line:
  "ingest ''B: 2.0'' 2 3000001 3000001 ((app0 [])\<lparr>belowStart := 1, last_q := [2]\<rparr>) =
     (app0 [])\<lparr>belowStart := 1, last_q := [2, 2], posted := [Start], emitted := [Start]\<rparr>"
  by (simp add: ingest_def parse_two smoothed_second debounce_def StartThresh_def app0_def
      MinValue_def startDebounce_def ms_ticks_def Let_def BeginInvoke_def)

lemma third_line:
  "ingest ''B: 2.0'' 2 3000002 3000002
     ((app0 [])\<lparr>belowStart := 1, last_q := [2, 2], posted := [Start], emitted := [Start]\<rparr>) =
     (app0 [])\<lparr>belowStart := 1, last_q := [2, 2, 2], posted := [Start, Start],
                emitted := [Start, Start]\<rparr>"
  by (simp add: ingest_def parse_two smoothed_third debounce_def StartThresh_def app0_def
      MinValue_def startDebounce_def ms_ticks_def Let_def BeginInvoke_def)

theorem hysteresis_step_witness:
  "ParseDistanceB ''B: 2.0'' = Some 2
   \<and> Smoothed 2 2 (last_q ((app0 [])\<lparr>belowStart := 1, last_q := [2]\<rparr>)) = ([2, 2], Some 2)
   \<and> (2::real) < StartThresh
   \<and> \<not> slideshowOn ((app0 [])\<lparr>belowStart := 1, last_q := [2]\<rparr>)
   \<and> ms_ticks 250 \<le> 3000001 - 1
   \<and> emitted (ingest ''B: 2.0'' 2 3000001 3000001 ((app0 [])\<lparr>belowStart := 1, last_q := [2]\<rparr>))
       = [Start]
   \<and> aboveStart (ingest ''B: 2.0'' 2 3000001 3000001 ((app0 [])\<lparr>belowStart := 1, last_q := [2]\<rparr>))
       = MinValue
   \<and> belowStart (ingest ''B: 2.0'' 2 3000001 3000001 ((app0 [])\<lparr>belowStart := 1, last_q := [2]\<rparr>))
       = 1"
proof -
  let ?s = "(app0 [])\<lparr>belowStart := 1, last_q := [2]\<rparr>"
  let ?s' = "ingest ''B: 2.0'' 2 3000001 3000001 ?s"
  have sm: "Smoothed 2 2 (last_q ?s) = ([2, 2], Some 2)" by (simp add: smoothed_second)
  have lt: "(2::real) < StartThresh" by (simp add: StartThresh_def)
  have off: "\<not> slideshowOn ?s" by (simp add: app0_def)
  have tm: "ms_ticks 250 \<le> 3000001 - 1" by (simp add: ms_ticks_def)
  from hysteresis_step [OF parse_two sm refl, of 3000001 3000001] lt
  have b: "belowStart ?s' = (if belowStart ?s = MinValue then 3000001 else belowStart ?s)"
    and a: "aboveStart ?s' = MinValue"
    and e: "emitted ?s' = emitted ?s @ [Start] \<and> posted ?s' = posted ?s @ [Start]
                 \<longleftrightarrow> \<not> slideshowOn ?s \<and> 3000001 - belowStart ?s' \<ge> ms_ticks 250"
    by blast+
  from b have b1: "belowStart ?s' = 1" by (simp add: MinValue_def)
  from e b1 off tm have "emitted ?s' = emitted ?s @ [Start]" by simp
  then have e1: "emitted ?s' = [Start]" by (simp add: app0_def)
  from parse_two sm lt off tm e1 a b1 show ?thesis by blast
qed

text \<open>
  Against claim C2 as stated: the second line is handled 300 ms after the first one
  started the timer, so \<open>Start\<close> is emitted, but the flag is still off when the line
  has been handled.
\<close>

theorem start_emitted_flag_off:
  "emitted (run_app [Line ''B: 2.0'' 2 1 1, Line ''B: 2.0'' 2 3000001 3000001] (app0 [])) = [Start]
   \<and> \<not> slideshowOn
         (run_app [Line ''B: 2.0'' 2 1 1, Line ''B: 2.0'' 2 3000001 3000001] (app0 []))"
  by (simp add: first_line second_line) (simp add: app0_def)

subsection \<open>The order of the decisions\<close>

lemma alternating_snoc:
  "alternating (xs @ [d]) \<longleftrightarrow> alternating xs \<and> (xs = [] \<or> List.last xs \<noteq> d)"
  by (induction xs rule: alternating.induct) auto

lemma ingest_emits:
  "(emitted (ingest line m now1 now2 s) = emitted s \<and> posted (ingest line m now1 now2 s) = posted s)
   \<or> (\<not> slideshowOn s \<and> emitted (ingest line m now1 now2 s) = emitted s @ [Start]
        \<and> posted (ingest line m now1 now2 s) = posted s @ [Start])
   \<or> (slideshowOn s \<and> emitted (ingest line m now1 now2 s) = emitted s @ [Stop]
        \<and> posted (ingest line m now1 now2 s) = posted s @ [Stop])"
  by (simp add: ingest_def debounce_def BeginInvoke_def Let_def
      split: option.splits prod.splits)

lemma sync_inv_line:
  assumes "sync_inv s" and "posted s = []"
  shows "sync_inv (ingest line m now1 now2 s)"
proof -
  let ?s' = "ingest line m now1 now2 s"
  from assms have alt: "alternating (emitted s)"
    and hd: "emitted s \<noteq> [] \<longrightarrow> hd (emitted s) = Start"
    and on: "slideshowOn s = (emitted s \<noteq> [] \<and> List.last (emitted s) = Start)"
    by (simp_all add: sync_inv_def)
  have flag: "slideshowOn ?s' = slideshowOn s" by (rule timer_inv_ingest(2))
  from ingest_emits [of line m now1 now2 s] show ?thesis
  proof (elim disjE conjE)
    assume "emitted ?s' = emitted s" "posted ?s' = posted s"
    then show ?thesis using assms flag by (simp add: sync_inv_def)
  next
    assume off: "\<not> slideshowOn s" and e: "emitted ?s' = emitted s @ [Start]"
      and p: "posted ?s' = posted s @ [Start]"
    from off on have l: "emitted s = [] \<or> List.last (emitted s) \<noteq> Start" by simp
    have h: "hd (emitted s @ [Start]) = Start" using hd by (cases "emitted s") simp_all
    show ?thesis
      using alt l h off e p flag assms(2) by (simp add: sync_inv_def alternating_snoc)
  next
    assume on': "slideshowOn s" and e: "emitted ?s' = emitted s @ [Stop]"
      and p: "posted ?s' = posted s @ [Stop]"
    from on' on have l: "emitted s \<noteq> []" "List.last (emitted s) = Start" by simp_all
    have h: "hd (emitted s @ [Stop]) = Start" using hd l(1) by (cases "emitted s") simp_all
    show ?thesis
      using alt l h on' e p flag assms(2) by (simp add: sync_inv_def alternating_snoc)
  qed
qed

lemma sync_inv_dispatch:
  assumes "sync_inv s"
  shows "sync_inv (dispatch s)"
proof (cases "posted s")
  case Nil
  with assms show ?thesis by (simp add: dispatch_def)
next
  case (Cons d ds)
  with assms have ds: "ds = []" by (cases ds) (simp_all add: sync_inv_def)
  from assms Cons ds have l: "emitted s \<noteq> []" "List.last (emitted s) = d"
    and alt: "alternating (emitted s)" and hd: "hd (emitted s) = Start"
    by (simp_all add: sync_inv_def)
  show ?thesis
    using Cons ds l alt hd
    by (cases d)
      (simp_all add: dispatch_def sync_inv_def run_decision_def StartSlideshow_def
        StopSlideshow_def Let_def)
qed

lemma AdvancePhoto_control:
  "emitted (AdvancePhoto s) = emitted s" "posted (AdvancePhoto s) = posted s"
  "slideshowOn (AdvancePhoto s) = slideshowOn s"
  by (simp_all add: AdvancePhoto_def Let_def)

lemma sync_inv_slide_tick: "sync_inv s \<Longrightarrow> sync_inv (slide_tick s)"
  by (auto simp: slide_tick_def sync_inv_def AdvancePhoto_control split: list.splits)

lemma sync_inv_run:
  "sync_inv s \<Longrightarrow> prompt es s \<Longrightarrow> Disconnect \<notin> set es \<Longrightarrow> sync_inv (run_app es s)"
proof (induction es arbitrary: s)
  case Nil
  then show ?case by simp
next
  case (Cons e es)
  have "sync_inv (app_step e s)"
  proof (cases e)
    case (Line line m now1 now2)
    with Cons.prems(2) have "posted s = []" by simp
    from sync_inv_line [OF Cons.prems(1) this] Line show ?thesis by simp
  next
    case Dispatch
    with sync_inv_dispatch [OF Cons.prems(1)] show ?thesis by simp
  next
    case SlideTick
    with sync_inv_slide_tick [OF Cons.prems(1)] show ?thesis by simp
  next
    case Disconnect
    with Cons.prems(3) show ?thesis by simp
  qed
  moreover from Cons.prems(2) have "prompt es (app_step e s)" by simp
  moreover from Cons.prems(3) have "Disconnect \<notin> set es" by simp
  ultimately show ?case using Cons.IH by simp
qed

lemma sync_inv_app0: "sync_inv (app0 imgs)"
  by (simp add: sync_inv_def app0_def)

text \<open>
  Claim C3, as the code has it. Handling one line posts at most one decision, \<open>Start\<close>
  only while the flag is off and \<open>Stop\<close> only while it is on. In a run without a
  disconnect in which every posted decision is run by the window's thread before the next
  line is handled, the decisions posted alternate strictly and begin with \<open>Start\<close>.
  Without that, the same decision can be posted again before the flag has changed; the
  slideshow ignores the repetition: \<open>StartSlideshow\<close> changes nothing while the flag is
  on, and \<open>StopSlideshow\<close> changes nothing while it is off.
\<close>

theorem decisions_alternate:
  "((emitted (ingest line m now1 now2 s) = emitted s
       \<and> posted (ingest line m now1 now2 s) = posted s)
     \<or> (\<not> slideshowOn s \<and> emitted (ingest line m now1 now2 s) = emitted s @ [Start]
         \<and> posted (ingest line m now1 now2 s) = posted s @ [Start])
     \<or> (slideshowOn s \<and> emitted (ingest line m now1 now2 s) = emitted s @ [Stop]
         \<and> posted (ingest line m now1 now2 s) = posted s @ [Stop]))
   \<and> (prompt es (app0 imgs) \<and> Disconnect \<notin> set es \<longrightarrow>
        alternating (emitted (run_app es (app0 imgs)))
        \<and> (emitted (run_app es (app0 imgs)) \<noteq> [] \<longrightarrow>
             hd (emitted (run_app es (app0 imgs))) = Start))
   \<and> (slideshowOn t \<longrightarrow> StartSlideshow t = t)
   \<and> (\<not> slideshowOn t \<longrightarrow> StopSlideshow t = t)
   \<and> StartSlideshow (StartSlideshow s) = StartSlideshow s
   \<and> StopSlideshow (StopSlideshow s) = StopSlideshow s"
proof -
  have r: "alternating (emitted (run_app es (app0 imgs)))
        \<and> (emitted (run_app es (app0 imgs)) \<noteq> [] \<longrightarrow>
             hd (emitted (run_app es (app0 imgs))) = Start)"
    if "prompt es (app0 imgs) \<and> Disconnect \<notin> set es"
    using sync_inv_run [OF sync_inv_app0, of es imgs] that by (simp add: sync_inv_def)
  have i: "StartSlideshow (StartSlideshow s) = StartSlideshow s"
    "StopSlideshow (StopSlideshow s) = StopSlideshow s"
    by (simp_all add: StartSlideshow_def StopSlideshow_def Let_def)
  have g: "slideshowOn t \<longrightarrow> StartSlideshow t = t" "\<not> slideshowOn t \<longrightarrow> StopSlideshow t = t"
    by (simp_all add: StartSlideshow_def StopSlideshow_def)
  from ingest_emits [of line m now1 now2 s] r i g show ?thesis by blast
qed

text \<open>
  A prompt run: the timer is started, \<open>Start\<close> is posted 300 ms later and run, then
  two lines above 3.5, 800 ms apart, post \<open>Stop\<close>.
\<close>

lemma prompt_run_eval:
  "prompt [Line ''B: 2.0'' 2 1 1, Line ''B: 2.0'' 2 3000001 3000001, Dispatch,
           Line ''B: 8.0'' 4 4000000 4000000, Line ''B: 8.0'' 5 12000000 12000000] (app0 [])
   \<and> emitted (run_app [Line ''B: 2.0'' 2 1 1, Line ''B: 2.0'' 2 3000001 3000001, Dispatch,
           Line ''B: 8.0'' 4 4000000 4000000, Line ''B: 8.0'' 5 12000000 12000000] (app0 []))
       = [Start, Stop]"
  by (simp add: first_line second_line)
    (simp add: ingest_def parse_simps Smoothed_def SmoothCount_def debounce_def
      StartThresh_def StopThresh_def app0_def MinValue_def startDebounce_def stopDebounce_def
      ms_ticks_def BeginInvoke_def dispatch_def run_decision_def StartSlideshow_def)

theorem decisions_alternate_witness:
  "prompt [Line ''B: 2.0'' 2 1 1, Line ''B: 2.0'' 2 3000001 3000001, Dispatch,
           Line ''B: 8.0'' 4 4000000 4000000, Line ''B: 8.0'' 5 12000000 12000000] (app0 [])
   \<and> Disconnect \<notin> set [Line ''B: 2.0'' 2 1 1, Line ''B: 2.0'' 2 3000001 3000001, Dispatch,
           Line ''B: 8.0'' 4 4000000 4000000, Line ''B: 8.0'' 5 12000000 12000000]
   \<and> emitted (run_app [Line ''B: 2.0'' 2 1 1, Line ''B: 2.0'' 2 3000001 3000001, Dispatch,
           Line ''B: 8.0'' 4 4000000 4000000, Line ''B: 8.0'' 5 12000000 12000000] (app0 []))
       = [Start, Stop]
   \<and> alternating (emitted (run_app [Line ''B: 2.0'' 2 1 1, Line ''B: 2.0'' 2 3000001 3000001,
           Dispatch, Line ''B: 8.0'' 4 4000000 4000000, Line ''B: 8.0'' 5 12000000 12000000]
           (app0 [])))
   \<and> slideshowOn (StartSlideshow (app0 []))
   \<and> StartSlideshow (StartSlideshow (app0 [])) = StartSlideshow (app0 [])
   \<and> \<not> slideshowOn (app0 [])
   \<and> StopSlideshow (app0 []) = app0 []"
proof -
  let ?es = "[Line ''B: 2.0'' 2 1 1, Line ''B: 2.0'' 2 3000001 3000001, Dispatch,
           Line ''B: 8.0'' 4 4000000 4000000, Line ''B: 8.0'' 5 12000000 12000000]"
  have p: "prompt ?es (app0 [])" and e: "emitted (run_app ?es (app0 [])) = [Start, Stop]"
    using prompt_run_eval by blast+
  have d: "Disconnect \<notin> set ?es" by simp
  from decisions_alternate [of _ _ _ _ _ ?es "[]"] p d
  have a: "alternating (emitted (run_app ?es (app0 [])))" by blast
  have on: "slideshowOn (StartSlideshow (app0 []))"
    by (simp add: StartSlideshow_def app0_def)
  have off: "\<not> slideshowOn (app0 [])" by (simp add: app0_def)
  from decisions_alternate [of _ _ _ _ _ _ _ "StartSlideshow (app0 [])"] on
  have g1: "StartSlideshow (StartSlideshow (app0 [])) = StartSlideshow (app0 [])" by blast
  from decisions_alternate [of _ _ _ _ _ _ _ "app0 []"] off
  have g2: "StopSlideshow (app0 []) = app0 []" by blast
  from p d e a on off g1 g2 show ?thesis by blast
qed

text \<open>
  Against claim C3 as stated: two lines below 2.8 are handled after the debounce time
  and before the window's thread has run the first posted \<open>Start\<close>. Both post
  \<open>Start\<close>, with no \<open>Stop\<close> between them.
\<close>

theorem start_emitted_twice:
  "emitted (run_app [Line ''B: 2.0'' 2 1 1, Line ''B: 2.0'' 2 3000001 3000001,
                     Line ''B: 2.0'' 2 3000002 3000002] (app0 [])) = [Start, Start]
   \<and> \<not> alternating (emitted (run_app [Line ''B: 2.0'' 2 1 1, Line ''B: 2.0'' 2 3000001 3000001,
                     Line ''B: 2.0'' 2 3000002 3000002] (app0 [])))"
  by (simp add: first_line second_line third_line)

text \<open>
  The two lines can come in one chunk, in one call of \<open>Port_DataReceived\<close>: the first
  call starts the timer, the second one, 300 ms later, posts \<open>Start\<close> for each of its
  two lines.
\<close>

lemma chunk_lines:
  "split_lines [] (''B: 2.0'' @ [CHR 0x0A] @ ''B: 2.0'' @ [CHR 0x0A]) = [''B: 2.0'', ''B: 2.0'']"
  by (simp add: is_eol_def)

lemma two_starts_in_one_chunk:
  "emitted (Port_DataReceived (\<lambda>k. (2, 3000001 + int k, 3000001 + int k))
        (''B: 2.0'' @ [CHR 0x0A] @ ''B: 2.0'' @ [CHR 0x0A])
        (Port_DataReceived (\<lambda>k. (2, 1, 1)) (''B: 2.0'' @ [CHR 0x0A]) (app0 [])))
      = [Start, Start]"
proof -
  have one: "split_lines [] (''B: 2.0'' @ [CHR 0x0A]) = [''B: 2.0'']"
    by (simp add: is_eol_def)
  have a: "Port_DataReceived (\<lambda>k. (2, 1, 1)) (''B: 2.0'' @ [CHR 0x0A]) (app0 [])
      = (app0 [])\<lparr>belowStart := 1, last_q := [2]\<rparr>"
    unfolding Port_DataReceived_def one by (simp add: first_line)
  have b: "Port_DataReceived (\<lambda>k. (2, 3000001 + int k, 3000001 + int k))
        (''B: 2.0'' @ [CHR 0x0A] @ ''B: 2.0'' @ [CHR 0x0A])
        ((app0 [])\<lparr>belowStart := 1, last_q := [2]\<rparr>)
      = (app0 [])\<lparr>belowStart := 1, last_q := [2, 2, 2], posted := [Start, Start],
                emitted := [Start, Start]\<rparr>"
    unfolding Port_DataReceived_def chunk_lines by (simp add: second_line third_line)
  show ?thesis
    unfolding a b by simp
qed

end
